theory Spec2Isabelle
  imports Complex_Main "HOL-Library.Word" "HOL-Library.Monad_Syntax"
begin

section \<open>C values, buffers and loops\<close>

text \<open>
  The two source files are \<^verbatim>\<open>src/wasm/seamcarving.c\<close> (the four stage functions over
  a three-channel \<^verbatim>\<open>struct rgb_img\<close>) and \<^verbatim>\<open>src/wasm/seamcarving_wasm.c\<close> (the same
  pipeline over a raw four-channel buffer, composed in \<^verbatim>\<open>seam_carve\<close>).

  Conventions of the embedding.
  \<^item> A C \<^verbatim>\<open>int\<close> is a HOL \<open>int\<close>. The index arithmetic of the code is done on
    unbounded integers: an image so large that \<^verbatim>\<open>4 * (y * width + x)\<close> leaves the range
    of a 32-bit \<^verbatim>\<open>int\<close> is outside the model.
  \<^item> A \<^verbatim>\<open>uint8_t\<close> is an \<open>8 word\<close>; storing an \<^verbatim>\<open>int\<close> into one is \<open>word_of_int\<close>
    (reduction modulo 256), reading one into an \<^verbatim>\<open>int\<close> is \<open>uint\<close>.
  \<^item> A \<^verbatim>\<open>double\<close> of the cost table is a HOL \<open>int\<close>. Every cost the program computes
    is a sum of at most \<^verbatim>\<open>height\<close> bytes, an integer far below \<open>2 ^ 53\<close>, on which the
    addition and the comparisons of \<^verbatim>\<open>double\<close> are exact. Cost tables with fractional,
    infinite or NaN entries are outside the model.
  \<^item> A buffer obtained from \<^verbatim>\<open>malloc\<close> is a list of cells, each \<open>None\<close> until the first
    store to it; \<^verbatim>\<open>malloc\<close> is taken to succeed. A function of the model returns
    \<open>None\<close> where the behaviour of the C code is undefined: an access outside the buffer,
    or a read of a cell or a local variable that was never assigned. The code itself
    has no error result: every function is \<^verbatim>\<open>void\<close> or returns its buffer.
  \<^item> Names are the source's, but for those that HOL or a record field of this theory
    has taken: the local \<^verbatim>\<open>min\<close> is \<open>minv\<close>, a parameter \<^verbatim>\<open>path\<close> is \<open>pth\<close>, a
    parameter \<^verbatim>\<open>raster\<close> is \<open>rast\<close>, and the parameters \<^verbatim>\<open>height\<close> and \<^verbatim>\<open>width\<close>
    are \<open>h\<close> and \<open>w\<close>. A function named with a suffix after a source function
    (\<open>dynamic_seam_cell\<close>, \<open>seam_carve_path\<close>) is a part of its body, with the lines it
    stands for.
\<close>

type_synonym 'a buffer = "'a option list"

definition malloc :: "int \<Rightarrow> 'a buffer" where
  "malloc n = replicate (nat n) None"

definition arr_get :: "'a buffer \<Rightarrow> int \<Rightarrow> 'a option" where
  "arr_get buf k = (if 0 \<le> k \<and> k < int (length buf) then buf ! nat k else None)"

definition arr_set :: "'a buffer \<Rightarrow> int \<Rightarrow> 'a \<Rightarrow> 'a buffer option" where
  "arr_set buf k v =
     (if 0 \<le> k \<and> k < int (length buf) then Some (buf[nat k := Some v]) else None)"

text \<open>\<^verbatim>\<open>for (int i = lo; i < hi; i++) body\<close>, the state threaded through the body.\<close>

function for_loop :: "int \<Rightarrow> int \<Rightarrow> (int \<Rightarrow> 's \<Rightarrow> 's option) \<Rightarrow> 's \<Rightarrow> 's option" where
  "for_loop i hi body s =
     (if i < hi then
        (case body i s of None \<Rightarrow> None | Some s' \<Rightarrow> for_loop (i + 1) hi body s')
      else Some s)"
  by pat_completeness auto
termination
  by (relation "measure (\<lambda>(i, hi, body, s). nat (hi - i))") auto

text \<open>\<^verbatim>\<open>for (int j = hi; j >= 0; j--) body\<close> (written \<^verbatim>\<open>j > 0 - 1\<close> in \<^verbatim>\<open>recover_path\<close>).\<close>

function for_down :: "int \<Rightarrow> (int \<Rightarrow> 's \<Rightarrow> 's option) \<Rightarrow> 's \<Rightarrow> 's option" where
  "for_down j body s =
     (if 0 \<le> j then
        (case body j s of None \<Rightarrow> None | Some s' \<Rightarrow> for_down (j - 1) body s')
      else Some s)"
  by pat_completeness auto
termination
  by (relation "measure (\<lambda>(j, body, s). nat (j + 1))") auto

declare for_loop.simps [simp del] for_down.simps [simp del]

text \<open>
  \<^verbatim>\<open>int energy = sqrt(n)\<close> for an \<^verbatim>\<open>int\<close> \<open>n\<close>: the argument is converted to
  \<^verbatim>\<open>double\<close> exactly, \<^verbatim>\<open>sqrt\<close> is correctly rounded and the conversion back truncates.
  For the arguments that occur (at most \<open>6 * 255\<^sup>2\<close>) the rounded root of a non-square
  lies strictly between two integers, so the result is the integer square root, which
  \<open>sqrt_c\<close> finds by counting up.
\<close>

function isqrt_from :: "int \<Rightarrow> int \<Rightarrow> int" where
  "isqrt_from k n = (if 0 \<le> k \<and> (k + 1) * (k + 1) \<le> n then isqrt_from (k + 1) n else k)"
  by pat_completeness auto
termination
proof (relation "measure (\<lambda>(k, n). nat (n - k))")
  show "wf (measure (\<lambda>(k, n). nat (n - k)))" by simp
next
  fix k n :: int
  assume a: "0 \<le> k \<and> (k + 1) * (k + 1) \<le> n"
  then have "k + 1 \<le> (k + 1) * (k + 1)"
    by (simp add: mult_le_cancel_left1)
  with a have "k < n"
    by linarith
  then show "((k + 1, n), (k, n)) \<in> measure (\<lambda>(k, n). nat (n - k))"
    by simp
qed

declare isqrt_from.simps [simp del]

definition sqrt_c :: "int \<Rightarrow> int" where
  "sqrt_c n = isqrt_from 0 n"

section \<open>The raster of \<^verbatim>\<open>seamcarving.c\<close>\<close>

text \<open>
  \<^verbatim>\<open>seamcarving.c\<close> includes \<^verbatim>\<open>c_img.h\<close>, which is not among the sources, and calls
  its \<^verbatim>\<open>create_img\<close>, \<^verbatim>\<open>get_pixel\<close> and \<^verbatim>\<open>set_pixel\<close>. The four definitions of this
  section stand for them. The four-channel helpers of \<^verbatim>\<open>seamcarving_wasm.c\<close> (lines
  7-35), which are among the sources, are the same with 4 for 3.
\<close>

text \<open>
  Modelled from the spec: the declaration of \<^verbatim>\<open>struct rgb_img\<close> is missing. The spec's
  Raster has a height, a width and a backing store of bytes (section 3); the fields are
  named as \<^verbatim>\<open>seamcarving.c\<close> uses them (\<^verbatim>\<open>im->height\<close>, \<^verbatim>\<open>im->width\<close>).
\<close>

record rgb_img =
  raster :: "8 word buffer"
  height :: int
  width :: int

text \<open>
  Modelled from the spec: the body of \<^verbatim>\<open>create_img\<close> is missing. The spec's
  \<open>allocate(height, width)\<close> gives a new raster of these dimensions, with a backing store
  of \<open>height * width * 3\<close> bytes (section 3), none of them assigned yet.
\<close>

definition create_img :: "int \<Rightarrow> int \<Rightarrow> rgb_img" where
  "create_img h w = \<lparr>raster = malloc (3 * h * w), height = h, width = w\<rparr>"

text \<open>
  Modelled from the spec: the body of \<^verbatim>\<open>get_pixel\<close> is missing. The spec's
  \<open>getPixel(row, col, channel)\<close> reads one byte of the packed RGB, row-major store
  (section 6): the byte at \<open>3 * (row * width + col) + channel\<close>.
\<close>

definition get_pixel :: "rgb_img \<Rightarrow> int \<Rightarrow> int \<Rightarrow> int \<Rightarrow> 8 word option" where
  "get_pixel im y x col = arr_get (raster im) (3 * (y * width im + x) + col)"

text \<open>
  Modelled from the spec: the body of \<^verbatim>\<open>set_pixel\<close> is missing. The spec's
  \<open>setPixel(row, col, r, g, b)\<close> stores the three bytes of a pixel; the arguments are
  \<^verbatim>\<open>int\<close>s (\<^verbatim>\<open>calc_energy\<close> passes \<^verbatim>\<open>int energy_norm\<close>) and are narrowed to
  \<^verbatim>\<open>uint8_t\<close> by the store.
\<close>

definition set_pixel :: "rgb_img \<Rightarrow> int \<Rightarrow> int \<Rightarrow> int \<Rightarrow> int \<Rightarrow> int \<Rightarrow> rgb_img option" where
  "set_pixel im y x r g b = do {
     m0 \<leftarrow> arr_set (raster im) (3 * (y * width im + x) + 0) (word_of_int r);
     m1 \<leftarrow> arr_set m0 (3 * (y * width im + x) + 1) (word_of_int g);
     m2 \<leftarrow> arr_set m1 (3 * (y * width im + x) + 2) (word_of_int b);
     Some (im\<lparr>raster := m2\<rparr>)
   }"

section \<open>\<^verbatim>\<open>seamcarving.c\<close>\<close>

subsection \<open>Part 1: \<^verbatim>\<open>calc_energy\<close>\<close>

text \<open>
  The body of the inner loop. \<open>energy_sum\<close> is lines 42-81: the wrap-around neighbours,
  the six channel differences and the sum \<^verbatim>\<open>grad_x_2 + grad_y_2\<close> of the two squared
  gradients. \<open>energy_norm\<close> is lines 84-85: the root and the normalisation
  \<^verbatim>\<open>energy_norm = (uint8_t)(energy / 10)\<close>. \<^verbatim>\<open>energy\<close> is never negative, so C's
  truncating division is \<open>div\<close>.
\<close>

definition energy_sum :: "rgb_img \<Rightarrow> int \<Rightarrow> int \<Rightarrow> int option" where
  "energy_sum im j i =
     (let w = width im; h = height im;
          k_left = (if i = 0 then w - 1 else i - 1);
          k_right = (if i = w - 1 then 0 else i + 1);
          k_up = (if j = 0 then h - 1 else j - 1);
          k_down = (if j = h - 1 then 0 else j + 1)
      in do {
        rr \<leftarrow> get_pixel im j k_right 0; rl \<leftarrow> get_pixel im j k_left 0;
        gr \<leftarrow> get_pixel im j k_right 1; gl \<leftarrow> get_pixel im j k_left 1;
        br \<leftarrow> get_pixel im j k_right 2; bl \<leftarrow> get_pixel im j k_left 2;
        ru \<leftarrow> get_pixel im k_up i 0; rd \<leftarrow> get_pixel im k_down i 0;
        gu \<leftarrow> get_pixel im k_up i 1; gd \<leftarrow> get_pixel im k_down i 1;
        bu \<leftarrow> get_pixel im k_up i 2; bd \<leftarrow> get_pixel im k_down i 2;
        let R_x = uint rr - uint rl; G_x = uint gr - uint gl; B_x = uint br - uint bl;
            R_y = uint ru - uint rd; G_y = uint gu - uint gd; B_y = uint bu - uint bd;
            grad_x_2 = R_x * R_x + B_x * B_x + G_x * G_x;
            grad_y_2 = R_y * R_y + B_y * B_y + G_y * G_y
        in Some (grad_x_2 + grad_y_2)
      })"

definition energy_norm :: "rgb_img \<Rightarrow> int \<Rightarrow> int \<Rightarrow> int option" where
  "energy_norm im j i = do {
     s \<leftarrow> energy_sum im j i;
     let energy = sqrt_c s
     in Some (uint (word_of_int (energy div 10) :: 8 word))
   }"

definition calc_energy :: "rgb_img \<Rightarrow> rgb_img option" where
  "calc_energy im =
     for_loop 0 (height im) (\<lambda>j.
       for_loop 0 (width im) (\<lambda>i grad. do {
         e \<leftarrow> energy_norm im j i;
         set_pixel grad j i e e e
       }))
     (create_img (height im) (width im))"

subsection \<open>Part 2: \<^verbatim>\<open>min_2\<close>, \<^verbatim>\<open>min_3\<close> and \<^verbatim>\<open>dynamic_seam\<close>\<close>

definition min_2 :: "int \<Rightarrow> int \<Rightarrow> int" where
  "min_2 e1 e2 = (if e1 > e2 then e2 else e1)"

definition min_3 :: "int \<Rightarrow> int \<Rightarrow> int \<Rightarrow> int" where
  "min_3 e1 e2 e3 = (let sub_min = min_2 e1 e2 in if sub_min > e3 then e3 else sub_min)"

text \<open>
  Lines 138-166, the body of the inner loop: the cell \<open>(j, i)\<close> of \<^verbatim>\<open>best_arr\<close> from the
  row above. The branch \<^verbatim>\<open>i == 0\<close> is tested before \<^verbatim>\<open>i == grad->width - 1\<close>.
\<close>

definition dynamic_seam_cell :: "rgb_img \<Rightarrow> int \<Rightarrow> int \<Rightarrow> int buffer \<Rightarrow> int buffer option" where
  "dynamic_seam_cell grad j i best_arr = do {
     p \<leftarrow> get_pixel grad j i 0;
     let cur = uint p;
     minv \<leftarrow>
       (if i = 0 then do {
          e1 \<leftarrow> arr_get best_arr ((j - 1) * width grad + (i + 1));
          e2 \<leftarrow> arr_get best_arr ((j - 1) * width grad + i);
          Some (min_2 e1 e2)
        }
        else if i = width grad - 1 then do {
          e1 \<leftarrow> arr_get best_arr ((j - 1) * width grad + i);
          e2 \<leftarrow> arr_get best_arr ((j - 1) * width grad + (i - 1));
          Some (min_2 e1 e2)
        }
        else do {
          e1 \<leftarrow> arr_get best_arr ((j - 1) * width grad + (i - 1));
          e2 \<leftarrow> arr_get best_arr ((j - 1) * width grad + i);
          e3 \<leftarrow> arr_get best_arr ((j - 1) * width grad + (i + 1));
          Some (min_3 e1 e2 e3)
        });
     arr_set best_arr (j * width grad + i) (cur + minv)
   }"

definition dynamic_seam :: "rgb_img \<Rightarrow> int buffer option" where
  "dynamic_seam grad = do {
     best_arr \<leftarrow>
       for_loop 0 (width grad) (\<lambda>i best_arr. do {
         p \<leftarrow> get_pixel grad 0 i 0;
         arr_set best_arr i (uint p)
       })
       (malloc (height grad * width grad));
     for_loop 1 (height grad) (\<lambda>j.
       for_loop 0 (width grad) (\<lambda>i best_arr. dynamic_seam_cell grad j i best_arr))
     best_arr
   }"

subsection \<open>Part 3: \<^verbatim>\<open>recover_path\<close>\<close>

text \<open>
  The variables of \<^verbatim>\<open>recover_path\<close>: \<^verbatim>\<open>*path\<close> and \<^verbatim>\<open>x_cont\<close> live across the rows
  (\<^verbatim>\<open>x_cont\<close> is declared without a value), the others are set afresh at the top of
  each row (lines 185-193).
\<close>

record rp_vars =
  path :: "int buffer"
  x_cont :: "int option"
  minv :: int
  e1_sum :: int
  e2_sum :: int
  e3_sum :: int
  e1_i :: int
  e2_i :: int
  e3_i :: int

text \<open>Lines 209-249: the candidates next to \<^verbatim>\<open>x_cont\<close> are recorded as the scan passes them.\<close>

definition rp_record :: "int \<Rightarrow> int \<Rightarrow> int \<Rightarrow> rp_vars \<Rightarrow> rp_vars option" where
  "rp_record w i b v =
     (if minv v > b then do {
        xc \<leftarrow> x_cont v;
        Some
         (if xc = 0 then
            (if i = xc then v\<lparr>e1_sum := b, e1_i := i\<rparr>
             else if i = xc + 1 then v\<lparr>e2_sum := b, e2_i := i\<rparr>
             else v)
          else if xc = w - 1 then
            (if i = xc then v\<lparr>e1_sum := b, e1_i := i\<rparr>
             else if i = xc - 1 then v\<lparr>e2_sum := b, e2_i := i\<rparr>
             else v)
          else
            (if i = xc then v\<lparr>e1_sum := b, e1_i := i\<rparr>
             else if i = xc - 1 then v\<lparr>e2_sum := b, e2_i := i\<rparr>
             else if i = xc + 1 then v\<lparr>e3_sum := b, e3_i := i\<rparr>
             else v))
      }
      else Some v)"

text \<open>Lines 252-281: at the last column the recorded candidates are compared.\<close>

definition rp_choose :: "int \<Rightarrow> rp_vars \<Rightarrow> rp_vars option" where
  "rp_choose j v =
     (if e3_sum v = 0 then
        (let m = min_2 (e1_sum v) (e2_sum v) in
         if m = e1_sum v then do {
           p \<leftarrow> arr_set (path v) j (e1_i v);
           Some (v\<lparr>path := p, minv := m, x_cont := Some (e1_i v)\<rparr>)
         }
         else do {
           p \<leftarrow> arr_set (path v) j (e2_i v);
           Some (v\<lparr>path := p, minv := m, x_cont := Some (e2_i v)\<rparr>)
         })
      else
        (let m = min_3 (e1_sum v) (e2_sum v) (e3_sum v) in
         if m = e1_sum v then do {
           p \<leftarrow> arr_set (path v) j (e1_i v);
           Some (v\<lparr>path := p, minv := m, x_cont := Some (e1_i v)\<rparr>)
         }
         else if m = e2_sum v then do {
           p \<leftarrow> arr_set (path v) j (e2_i v);
           Some (v\<lparr>path := p, minv := m, x_cont := Some (e2_i v)\<rparr>)
         }
         else do {
           p \<leftarrow> arr_set (path v) j (e3_i v);
           Some (v\<lparr>path := p, minv := m, x_cont := Some (e3_i v)\<rparr>)
         }))"

text \<open>Lines 196-283: one step of the scan along row \<open>j\<close>.\<close>

definition rp_step :: "int buffer \<Rightarrow> int \<Rightarrow> int \<Rightarrow> int \<Rightarrow> int \<Rightarrow> rp_vars \<Rightarrow> rp_vars option" where
  "rp_step best h w j i v = do {
     b \<leftarrow> arr_get best (j * w + i);
     if j = h - 1 then
       (if minv v > b then do {
          p \<leftarrow> arr_set (path v) j i;
          Some (v\<lparr>path := p, minv := b, x_cont := Some i\<rparr>)
        }
        else Some v)
     else do {
       v1 \<leftarrow> rp_record w i b v;
       if i = w - 1 then rp_choose j v1 else Some v1
     }
   }"

definition recover_path :: "int buffer \<Rightarrow> int \<Rightarrow> int \<Rightarrow> int buffer option" where
  "recover_path best h w = do {
     (p, xc) \<leftarrow>
       for_down (h - 1) (\<lambda>j (p, xc). do {
         v \<leftarrow> for_loop 0 w (rp_step best h w j)
                \<lparr>path = p, x_cont = xc, minv = 10000000000000000,
                 e1_sum = 0, e2_sum = 0, e3_sum = 0, e1_i = 0, e2_i = 0, e3_i = 0\<rparr>;
         Some (path v, x_cont v)
       })
       (malloc h, None);
     Some p
   }"

subsection \<open>Part 4: \<^verbatim>\<open>remove_seam\<close>\<close>

definition remove_seam :: "rgb_img \<Rightarrow> int buffer \<Rightarrow> rgb_img option" where
  "remove_seam src pth =
     for_loop 0 (height src) (\<lambda>j.
       for_loop 0 (width src) (\<lambda>i dest. do {
         pj \<leftarrow> arr_get pth j;
         if i \<noteq> pj then do {
           R \<leftarrow> get_pixel src j i 0;
           G \<leftarrow> get_pixel src j i 1;
           B \<leftarrow> get_pixel src j i 2;
           if i < pj then set_pixel dest j i (uint R) (uint G) (uint B)
           else set_pixel dest j (i - 1) (uint R) (uint G) (uint B)
         }
         else Some dest
       }))
     (create_img (height src) (width src - 1))"

section \<open>\<^verbatim>\<open>seamcarving_wasm.c\<close>\<close>

text \<open>
  The raster is a bare \<^verbatim>\<open>uint8_t *\<close> with four bytes per pixel; height and width travel
  as arguments. \<^verbatim>\<open>min_2\<close> and \<^verbatim>\<open>min_3\<close> of this file (lines 38-46) are the functions of
  \<^verbatim>\<open>seamcarving.c\<close> written with \<^verbatim>\<open>?:\<close>, and share their definitions above.
\<close>

definition get_pixel_wasm :: "8 word buffer \<Rightarrow> int \<Rightarrow> int \<Rightarrow> int \<Rightarrow> int \<Rightarrow> 8 word option" where
  "get_pixel_wasm rast w y x col = arr_get rast (4 * (y * w + x) + col)"

definition set_pixel_wasm ::
  "8 word buffer \<Rightarrow> int \<Rightarrow> int \<Rightarrow> int \<Rightarrow> int \<Rightarrow> int \<Rightarrow> int \<Rightarrow> int \<Rightarrow> 8 word buffer option" where
  "set_pixel_wasm rast w y x r g b a = do {
     m0 \<leftarrow> arr_set rast (4 * (y * w + x) + 0) (word_of_int r);
     m1 \<leftarrow> arr_set m0 (4 * (y * w + x) + 1) (word_of_int g);
     m2 \<leftarrow> arr_set m1 (4 * (y * w + x) + 2) (word_of_int b);
     arr_set m2 (4 * (y * w + x) + 3) (word_of_int a)
   }"

text \<open>Lines 56-73 of \<^verbatim>\<open>calc_energy\<close>: the sum of the two squared gradients at \<open>(j, i)\<close>.\<close>

definition energy_sum_wasm :: "8 word buffer \<Rightarrow> int \<Rightarrow> int \<Rightarrow> int \<Rightarrow> int \<Rightarrow> int option" where
  "energy_sum_wasm src h w j i =
     (let k_left = (if i = 0 then w - 1 else i - 1);
          k_right = (if i = w - 1 then 0 else i + 1);
          k_up = (if j = 0 then h - 1 else j - 1);
          k_down = (if j = h - 1 then 0 else j + 1)
      in do {
        rr \<leftarrow> get_pixel_wasm src w j k_right 0; rl \<leftarrow> get_pixel_wasm src w j k_left 0;
        gr \<leftarrow> get_pixel_wasm src w j k_right 1; gl \<leftarrow> get_pixel_wasm src w j k_left 1;
        br \<leftarrow> get_pixel_wasm src w j k_right 2; bl \<leftarrow> get_pixel_wasm src w j k_left 2;
        ru \<leftarrow> get_pixel_wasm src w k_up i 0; rd \<leftarrow> get_pixel_wasm src w k_down i 0;
        gu \<leftarrow> get_pixel_wasm src w k_up i 1; gd \<leftarrow> get_pixel_wasm src w k_down i 1;
        bu \<leftarrow> get_pixel_wasm src w k_up i 2; bd \<leftarrow> get_pixel_wasm src w k_down i 2;
        let r_x = uint rr - uint rl; g_x = uint gr - uint gl; b_x = uint br - uint bl;
            r_y = uint ru - uint rd; g_y = uint gu - uint gd; b_y = uint bu - uint bd;
            grad_x_2 = r_x * r_x + g_x * g_x + b_x * b_x;
            grad_y_2 = r_y * r_y + g_y * g_y + b_y * b_y
        in Some (grad_x_2 + grad_y_2)
      })"

text \<open>
  Lines 50-82. \<^verbatim>\<open>energy_norm = energy / 10\<close> stays an \<^verbatim>\<open>int\<close> here; it is narrowed when
  \<^verbatim>\<open>set_pixel\<close> stores it in the raster.
\<close>

definition calc_energy_wasm :: "8 word buffer \<Rightarrow> 8 word buffer \<Rightarrow> int \<Rightarrow> int \<Rightarrow> 8 word buffer option" where
  "calc_energy_wasm src dest h w =
     (for_loop 0 h (\<lambda>j.
        for_loop 0 w (\<lambda>i dest. do {
          s \<leftarrow> energy_sum_wasm src h w j i;
          let energy = sqrt_c s; energy_norm = energy div 10
          in set_pixel_wasm dest w j i energy_norm energy_norm energy_norm 255
        }))
      dest)"

text \<open>
  \<^verbatim>\<open>seam_carve\<close> is one C function; the model cuts it at its comments into the cost table
  (lines 91-127), the seam (lines 129-165) and the copy (lines 167-183), so that the table
  and the seam, which the C function frees, can be spoken about.
\<close>

definition seam_carve_cell :: "8 word buffer \<Rightarrow> int \<Rightarrow> int \<Rightarrow> int \<Rightarrow> int buffer \<Rightarrow> int buffer option" where
  "seam_carve_cell energy_map w j i best_arr = do {
     p \<leftarrow> get_pixel_wasm energy_map w j i 0;
     let cur = uint p;
     minv \<leftarrow>
       (if i = 0 then do {
          e1 \<leftarrow> arr_get best_arr ((j - 1) * w + i + 1);
          e2 \<leftarrow> arr_get best_arr ((j - 1) * w + i);
          Some (min_2 e1 e2)
        }
        else if i = w - 1 then do {
          e1 \<leftarrow> arr_get best_arr ((j - 1) * w + i);
          e2 \<leftarrow> arr_get best_arr ((j - 1) * w + i - 1);
          Some (min_2 e1 e2)
        }
        else do {
          e1 \<leftarrow> arr_get best_arr ((j - 1) * w + i - 1);
          e2 \<leftarrow> arr_get best_arr ((j - 1) * w + i);
          e3 \<leftarrow> arr_get best_arr ((j - 1) * w + i + 1);
          Some (min_3 e1 e2 e3)
        });
     arr_set best_arr (j * w + i) (cur + minv)
   }"

definition seam_carve_best :: "8 word buffer \<Rightarrow> int \<Rightarrow> int \<Rightarrow> int buffer option" where
  "seam_carve_best energy_map h w = do {
     best_arr \<leftarrow>
       for_loop 0 w (\<lambda>i best_arr. do {
         p \<leftarrow> get_pixel_wasm energy_map w 0 i 0;
         arr_set best_arr i (uint p)
       })
       (malloc (h * w));
     for_loop 1 h (\<lambda>j.
       for_loop 0 w (\<lambda>i best_arr. seam_carve_cell energy_map w j i best_arr))
     best_arr
   }"

text \<open>Lines 133-141: the running minimum \<open>(min_energy, min_idx)\<close> along the bottom row.\<close>

definition seam_carve_bottom :: "int buffer \<Rightarrow> int \<Rightarrow> int \<Rightarrow> (int \<times> int) option" where
  "seam_carve_bottom best_arr h w = do {
     m0 \<leftarrow> arr_get best_arr ((h - 1) * w);
     for_loop 1 w (\<lambda>i (min_energy, min_idx). do {
       b \<leftarrow> arr_get best_arr ((h - 1) * w + i);
       if b < min_energy then Some (b, i) else Some (min_energy, min_idx)
     })
     (m0, 0)
   }"

text \<open>Lines 146-164: one step of the backtracking, from row \<open>j + 1\<close> to row \<open>j\<close>.\<close>

definition seam_carve_back :: "int buffer \<Rightarrow> int \<Rightarrow> int \<Rightarrow> int buffer \<Rightarrow> int buffer option" where
  "seam_carve_back best_arr w j pth = do {
     prev_idx \<leftarrow> arr_get pth (j + 1);
     m0 \<leftarrow> arr_get best_arr (j * w + prev_idx);
     (min_energy, min_idx) \<leftarrow>
       (if prev_idx > 0 then do {
          b \<leftarrow> arr_get best_arr (j * w + prev_idx - 1);
          if b < m0 then Some (b, prev_idx - 1) else Some (m0, prev_idx)
        }
        else Some (m0, prev_idx));
     (min_energy, min_idx) \<leftarrow>
       (if prev_idx < w - 1 then do {
          b \<leftarrow> arr_get best_arr (j * w + prev_idx + 1);
          if b < min_energy then Some (b, prev_idx + 1) else Some (min_energy, min_idx)
        }
        else Some (min_energy, min_idx));
     arr_set pth j min_idx
   }"

definition seam_carve_path :: "int buffer \<Rightarrow> int \<Rightarrow> int \<Rightarrow> int buffer option" where
  "seam_carve_path best_arr h w = do {
     (min_energy, min_idx) \<leftarrow> seam_carve_bottom best_arr h w;
     pth \<leftarrow> arr_set (malloc h) (h - 1) min_idx;
     for_down (h - 2) (seam_carve_back best_arr w) pth
   }"

text \<open>Lines 171-183: the copy, \<^verbatim>\<open>new_col\<close> counting the pixels kept in the row.\<close>

definition seam_carve_copy :: "8 word buffer \<Rightarrow> int buffer \<Rightarrow> int \<Rightarrow> int \<Rightarrow> 8 word buffer option" where
  "seam_carve_copy src pth h w = do {
     (output, new_col) \<leftarrow>
       for_loop 0 h (\<lambda>j (output, new_col0).
         for_loop 0 w (\<lambda>i (output, new_col). do {
           pj \<leftarrow> arr_get pth j;
           if i \<noteq> pj then do {
             c0 \<leftarrow> get_pixel_wasm src w j i 0;
             c1 \<leftarrow> get_pixel_wasm src w j i 1;
             c2 \<leftarrow> get_pixel_wasm src w j i 2;
             c3 \<leftarrow> get_pixel_wasm src w j i 3;
             out \<leftarrow> set_pixel_wasm output (w - 1) j new_col
                      (uint c0) (uint c1) (uint c2) (uint c3);
             Some (out, new_col + 1)
           }
           else Some (output, new_col)
         })
         (output, 0))
       (malloc (h * (w - 1) * 4), 0);
     Some output
   }"

definition seam_carve :: "8 word buffer \<Rightarrow> int \<Rightarrow> int \<Rightarrow> 8 word buffer option" where
  "seam_carve src h w = do {
     energy_map \<leftarrow> calc_energy_wasm src (malloc (h * w * 4)) h w;
     best_arr \<leftarrow> seam_carve_best energy_map h w;
     pth \<leftarrow> seam_carve_path best_arr h w;
     seam_carve_copy src pth h w
   }"

section \<open>Well-formed inputs\<close>

text \<open>
  The spec's Raster invariant: a backing store of exactly \<open>height * width * channels\<close>
  bytes. \<open>sized\<close> asks for the size only (a raster fresh from \<^verbatim>\<open>create_img\<close>),
  \<open>wf_img\<close> also that every byte has been assigned (a raster a stage receives).
  \<open>wf_rgba\<close> is the same for the four-channel buffer of \<^verbatim>\<open>seamcarving_wasm.c\<close>.
\<close>

definition sized :: "rgb_img \<Rightarrow> bool" where
  "sized im \<longleftrightarrow>
     0 \<le> height im \<and> 0 \<le> width im \<and> int (length (raster im)) = 3 * height im * width im"

definition wf_img :: "rgb_img \<Rightarrow> bool" where
  "wf_img im \<longleftrightarrow> sized im \<and> None \<notin> set (raster im)"

definition wf_rgba :: "8 word buffer \<Rightarrow> int \<Rightarrow> int \<Rightarrow> bool" where
  "wf_rgba src h w \<longleftrightarrow> 0 \<le> h \<and> 0 \<le> w \<and> int (length src) = 4 * h * w \<and> None \<notin> set src"

section \<open>The dual gradient as the spec words it\<close>

text \<open>
  The spec's energy (section 4.1) at pixel (row \<open>j\<close>, column \<open>i\<close>) of an \<open>H \<times> W\<close> raster:
  left is \<open>i - 1\<close>, wrapping to \<open>W - 1\<close> at \<open>i = 0\<close>; right is \<open>i + 1\<close>, wrapping to 0 at
  \<open>i = W - 1\<close>; up is \<open>j - 1\<close>, wrapping to \<open>H - 1\<close> at \<open>j = 0\<close>; down is \<open>j + 1\<close>, wrapping
  to 0 at \<open>j = H - 1\<close>. \<open>gradX\<^sup>2\<close> is the sum over the three colour channels of the squared
  difference (pixel at right minus pixel at left), \<open>gradY\<^sup>2\<close> of the squared difference
  (pixel at up minus pixel at down). \<open>P y x c\<close> is the byte of channel \<open>c\<close> of the pixel
  in row \<open>y\<close> and column \<open>x\<close>. These definitions follow the spec and not the code; the
  code is compared with them.
\<close>

definition spec_left :: "int \<Rightarrow> int \<Rightarrow> int" where
  "spec_left w i = (if i = 0 then w - 1 else i - 1)"

definition spec_right :: "int \<Rightarrow> int \<Rightarrow> int" where
  "spec_right w i = (if i = w - 1 then 0 else i + 1)"

definition spec_up :: "int \<Rightarrow> int \<Rightarrow> int" where
  "spec_up h j = (if j = 0 then h - 1 else j - 1)"

definition spec_down :: "int \<Rightarrow> int \<Rightarrow> int" where
  "spec_down h j = (if j = h - 1 then 0 else j + 1)"

definition spec_gradX2 :: "(int \<Rightarrow> int \<Rightarrow> int \<Rightarrow> 8 word) \<Rightarrow> int \<Rightarrow> int \<Rightarrow> int \<Rightarrow> int" where
  "spec_gradX2 P w j i =
     (\<Sum>c\<leftarrow>[0, 1, 2]. (uint (P j (spec_right w i) c) - uint (P j (spec_left w i) c))\<^sup>2)"

definition spec_gradY2 :: "(int \<Rightarrow> int \<Rightarrow> int \<Rightarrow> 8 word) \<Rightarrow> int \<Rightarrow> int \<Rightarrow> int \<Rightarrow> int" where
  "spec_gradY2 P h j i =
     (\<Sum>c\<leftarrow>[0, 1, 2]. (uint (P (spec_up h j) i c) - uint (P (spec_down h j) i c))\<^sup>2)"

section \<open>The cost table as the spec words it\<close>

text \<open>
  The spec's CostTable (section 3): row 0 is the energy map's row 0; row \<open>j > 0\<close>, column
  \<open>i\<close> is the energy at \<open>(j, i)\<close> plus the minimum of the row above over the predecessor
  set \<open>{i - 1, i, i + 1} \<inter> [0, W - 1]\<close>. \<open>E j i\<close> is the energy, \<open>w\<close> the width. This
  definition follows the spec and not the code; the code is compared with it.
\<close>

fun spec_cost :: "(int \<Rightarrow> int \<Rightarrow> int) \<Rightarrow> int \<Rightarrow> nat \<Rightarrow> int \<Rightarrow> int" where
  "spec_cost E w 0 i = E 0 i"
| "spec_cost E w (Suc j) i =
     E (int (Suc j)) i + Min (spec_cost E w j ` ({i - 1, i, i + 1} \<inter> {0..w - 1}))"

section \<open>The seam as the spec words it\<close>

text \<open>
  \<open>cost_at best w j i\<close> is \<open>CostTable[j][i]\<close> of a filled table. The candidate columns
  above column \<open>c\<close> are \<open>{c - 1, c, c + 1} \<inter> [0, W - 1]\<close> (spec, section 4.3, step 2).
\<close>

definition cost_at :: "int buffer \<Rightarrow> int \<Rightarrow> int \<Rightarrow> int \<Rightarrow> int" where
  "cost_at best w j i = the (arr_get best (j * w + i))"

definition candidates :: "int \<Rightarrow> int \<Rightarrow> int set" where
  "candidates w c = {c - 1, c, c + 1} \<inter> {0..w - 1}"

text \<open>
  Step 1: \<open>p\<close> minimises the row, and no column left of \<open>p\<close> has the same cost (first
  occurrence in a left-to-right scan).
\<close>

definition lowest_min :: "(int \<Rightarrow> int) \<Rightarrow> int \<Rightarrow> int \<Rightarrow> bool" where
  "lowest_min row w p \<longleftrightarrow>
     p \<in> {0..w - 1} \<and> (\<forall>x\<in>{0..w - 1}. row p \<le> row x) \<and> (\<forall>x\<in>{0..p - 1}. row p < row x)"

text \<open>The SeamPath invariant of one row: \<open>p\<close> is a candidate above \<open>c\<close> of least cost.\<close>

definition local_min :: "(int \<Rightarrow> int) \<Rightarrow> int \<Rightarrow> int \<Rightarrow> int \<Rightarrow> bool" where
  "local_min row w c p \<longleftrightarrow> p \<in> candidates w c \<and> (\<forall>x\<in>candidates w c. row p \<le> row x)"

text \<open>
  The documented order among candidates of equal, least cost: \<open>c\<close> itself wherever it is
  one of them; \<open>c - 1\<close> wherever it is one of them and \<open>c\<close> is not (so \<open>c - 1\<close> before
  \<open>c + 1\<close>).
\<close>

definition tie_break :: "(int \<Rightarrow> int) \<Rightarrow> int \<Rightarrow> int \<Rightarrow> int \<Rightarrow> bool" where
  "tie_break row w c p \<longleftrightarrow>
     ((\<forall>x\<in>candidates w c. row c \<le> row x) \<longrightarrow> p = c) \<and>
     (c - 1 \<in> candidates w c \<and> row (c - 1) < row c \<and> (\<forall>x\<in>candidates w c. row (c - 1) \<le> row x)
        \<longrightarrow> p = c - 1)"

section \<open>What \<^verbatim>\<open>recover_path\<close> chooses, in closed form\<close>

text \<open>
  The column that lines 196-283 of \<^verbatim>\<open>recover_path\<close> store for a row whose costs are
  \<open>row\<close>, above column \<open>c\<close> (lemma \<open>rp_row\<close> below proves that the loop computes it).
  The test \<^verbatim>\<open>e3_sum == 0\<close> of line 253 is meant to recognise the two border cases, in
  which \<^verbatim>\<open>e3_sum\<close> is never assigned; it also holds in the general case when the cost
  right of \<open>c\<close> is 0, and then that column is left out of the comparison.
\<close>

definition rp_pick :: "(int \<Rightarrow> int) \<Rightarrow> int \<Rightarrow> int \<Rightarrow> int" where
  "rp_pick row w c =
     (if 0 < c \<and> c < w - 1 \<and> row (c + 1) \<noteq> 0 then
        (let m = min_3 (row c) (row (c - 1)) (row (c + 1)) in
         if m = row c then c else if m = row (c - 1) then c - 1 else c + 1)
      else if c = 0 then
        (if 1 < w then (if min_2 (row 0) (row 1) = row 0 then 0 else 1) else 0)
      else (if min_2 (row c) (row (c - 1)) = row c then c else c - 1))"

section \<open>Rules for the loops\<close>

text \<open>
  A loop returns a state that satisfies the invariant at its end when the invariant holds
  at the start and every iteration returns a state and keeps it.
\<close>

lemma for_loop_done: "hi \<le> i \<Longrightarrow> for_loop i hi body s = Some s"
  by (simp add: for_loop.simps)

lemma for_loop_step:
  "i < hi \<Longrightarrow> for_loop i hi body s =
     (case body i s of None \<Rightarrow> None | Some s' \<Rightarrow> for_loop (i + 1) hi body s')"
  by (subst for_loop.simps) simp

lemma for_loop_rule_from:
  assumes step: "\<And>k t. lo \<le> k \<Longrightarrow> k < hi \<Longrightarrow> I k t \<Longrightarrow> \<exists>t'. body k t = Some t' \<and> I (k + 1) t'"
  shows "lo \<le> i \<Longrightarrow> i \<le> hi \<Longrightarrow> I i s \<Longrightarrow> \<exists>s'. for_loop i hi body s = Some s' \<and> I hi s'"
proof (induction "nat (hi - i)" arbitrary: i s)
  case 0
  then have "i = hi" by simp
  with 0 show ?case by (simp add: for_loop_done)
next
  case (Suc n)
  then have lt: "i < hi" by linarith
  from step [OF Suc.prems(1) lt Suc.prems(3)]
  obtain t where t: "body i s = Some t" "I (i + 1) t" by blast
  have "n = nat (hi - (i + 1))" using Suc.hyps(2) by linarith
  from Suc.hyps(1) [OF this _ _ t(2)] Suc.prems(1) lt
  obtain s' where "for_loop (i + 1) hi body t = Some s'" "I hi s'" by auto
  with t lt show ?case by (simp add: for_loop_step)
qed

lemma for_loop_rule:
  assumes "lo \<le> hi" and "I lo s"
    and "\<And>k t. lo \<le> k \<Longrightarrow> k < hi \<Longrightarrow> I k t \<Longrightarrow> \<exists>t'. body k t = Some t' \<and> I (k + 1) t'"
  shows "\<exists>s'. for_loop lo hi body s = Some s' \<and> I hi s'"
  using for_loop_rule_from [where I = I and lo = lo and i = lo, OF assms(3) order_refl assms(1) assms(2)]
  by simp

lemma for_down_done: "j < 0 \<Longrightarrow> for_down j body s = Some s"
  by (simp add: for_down.simps)

lemma for_down_step:
  "0 \<le> j \<Longrightarrow> for_down j body s =
     (case body j s of None \<Rightarrow> None | Some s' \<Rightarrow> for_down (j - 1) body s')"
  by (subst for_down.simps) simp

lemma for_down_rule_from:
  assumes step: "\<And>k t. 0 \<le> k \<Longrightarrow> k \<le> hi \<Longrightarrow> I k t \<Longrightarrow> \<exists>t'. body k t = Some t' \<and> I (k - 1) t'"
  shows "- 1 \<le> j \<Longrightarrow> j \<le> hi \<Longrightarrow> I j s \<Longrightarrow> \<exists>s'. for_down j body s = Some s' \<and> I (- 1) s'"
proof (induction "nat (j + 1)" arbitrary: j s)
  case 0
  then have "j = - 1" by simp
  with 0 show ?case by (simp add: for_down_done)
next
  case (Suc n)
  then have ge: "0 \<le> j" by linarith
  from step [OF ge Suc.prems(2) Suc.prems(3)]
  obtain t where t: "body j s = Some t" "I (j - 1) t" by blast
  have "n = nat (j - 1 + 1)" using Suc.hyps(2) by linarith
  from Suc.hyps(1) [OF this _ _ t(2)] Suc.prems(2) ge
  obtain s' where "for_down (j - 1) body t = Some s'" "I (- 1) s'" by auto
  with t ge show ?case by (simp add: for_down_step)
qed

lemma for_down_rule:
  assumes "- 1 \<le> hi" and "I hi s"
    and "\<And>k t. 0 \<le> k \<Longrightarrow> k \<le> hi \<Longrightarrow> I k t \<Longrightarrow> \<exists>t'. body k t = Some t' \<and> I (k - 1) t'"
  shows "\<exists>s'. for_down hi body s = Some s' \<and> I (- 1) s'"
  using for_down_rule_from [where I = I and hi = hi and j = hi, OF assms(3) assms(1) order_refl assms(2)]
  by simp

text \<open>Two nested loops, the inner one from 0: an invariant over the row-major positions.\<close>

lemma for_loop2_rule_from:
  assumes h: "lo \<le> h" and w: "0 \<le> w" and init: "I lo 0 s"
    and step: "\<And>j i t. lo \<le> j \<Longrightarrow> j < h \<Longrightarrow> 0 \<le> i \<Longrightarrow> i < w \<Longrightarrow> I j i t \<Longrightarrow>
                 \<exists>t'. body j i t = Some t' \<and> I j (i + 1) t'"
    and row: "\<And>j t. lo \<le> j \<Longrightarrow> j < h \<Longrightarrow> I j w t \<Longrightarrow> I (j + 1) 0 t"
  shows "\<exists>s'. for_loop lo h (\<lambda>j. for_loop 0 w (body j)) s = Some s' \<and> I h 0 s'"
proof (rule for_loop_rule [where I = "\<lambda>j. I j 0", OF h init])
  fix j t
  assume j: "lo \<le> j" "j < h" and t: "I j 0 t"
  have "\<exists>t'. for_loop 0 w (body j) t = Some t' \<and> I j w t'"
    by (rule for_loop_rule [where I = "I j", OF w t]) (rule step [OF j])
  then show "\<exists>t'. for_loop 0 w (body j) t = Some t' \<and> I (j + 1) 0 t'"
    using row [OF j] by blast
qed

lemma for_loop2_rule:
  assumes "0 \<le> h" and "0 \<le> w" and "I 0 0 s"
    and "\<And>j i t. 0 \<le> j \<Longrightarrow> j < h \<Longrightarrow> 0 \<le> i \<Longrightarrow> i < w \<Longrightarrow> I j i t \<Longrightarrow>
                 \<exists>t'. body j i t = Some t' \<and> I j (i + 1) t'"
    and "\<And>j t. 0 \<le> j \<Longrightarrow> j < h \<Longrightarrow> I j w t \<Longrightarrow> I (j + 1) 0 t"
  shows "\<exists>s'. for_loop 0 h (\<lambda>j. for_loop 0 w (body j)) s = Some s' \<and> I h 0 s'"
  using assms by (rule for_loop2_rule_from)

section \<open>Buffers and pixel indices\<close>

lemma cell_index_bounds:
  fixes y x h w :: int
  assumes "0 \<le> y" "y < h" "0 \<le> x" "x < w"
  shows "0 \<le> y * w + x" and "y * w + x < h * w"
proof -
  have w: "0 \<le> w" using assms by linarith
  have "0 \<le> y * w" using assms(1) w by simp
  then show "0 \<le> y * w + x" using assms(3) by linarith
  have "(y + 1) * w \<le> h * w"
    using assms(2) w by (intro mult_right_mono) auto
  then show "y * w + x < h * w"
    using assms(4) by (simp add: algebra_simps)
qed

lemma cell_index_inj:
  fixes y x y' x' w :: int
  assumes "0 \<le> x" "x < w" "0 \<le> x'" "x' < w" "y * w + x = y' * w + x'"
  shows "y = y' \<and> x = x'"
proof -
  have w: "0 \<le> w" using assms by linarith
  have "\<not> y < y'"
  proof
    assume "y < y'"
    then have "(y + 1) * w \<le> y' * w" using w by (intro mult_right_mono) auto
    then show False using assms by (simp add: algebra_simps)
  qed
  moreover have "\<not> y' < y"
  proof
    assume "y' < y"
    then have "(y' + 1) * w \<le> y * w" using w by (intro mult_right_mono) auto
    then show False using assms by (simp add: algebra_simps)
  qed
  ultimately have "y = y'" by linarith
  with assms(5) show ?thesis by simp
qed

lemma arr_get_set:
  "arr_set buf k v = Some buf' \<Longrightarrow> arr_get buf' k' = (if k' = k then Some v else arr_get buf k')"
  by (auto simp: arr_set_def arr_get_def nth_list_update split: if_splits)

lemma arr_set_length: "arr_set buf k v = Some buf' \<Longrightarrow> length buf' = length buf"
  by (auto simp: arr_set_def split: if_splits)

lemma arr_set_ok: "0 \<le> k \<Longrightarrow> k < int (length buf) \<Longrightarrow> \<exists>buf'. arr_set buf k v = Some buf'"
  by (simp add: arr_set_def)

subsection \<open>Pixels of the three-channel raster\<close>

lemma pixel_index_bounds:
  fixes y x c h w n :: int
  assumes "0 \<le> y" "y < h" "0 \<le> x" "x < w" "0 \<le> c" "c < n"
  shows "0 \<le> n * (y * w + x) + c" and "n * (y * w + x) + c < n * h * w"
proof -
  from cell_index_bounds [OF assms(1-4)] have p: "0 \<le> y * w + x" "y * w + x + 1 \<le> h * w" by auto
  have n: "0 \<le> n" using assms by linarith
  then have "0 \<le> n * (y * w + x)" using p(1) by simp
  then show "0 \<le> n * (y * w + x) + c" using assms(5) by linarith
  have "n * (y * w + x + 1) \<le> n * (h * w)" using p(2) n by (rule mult_left_mono)
  then show "n * (y * w + x) + c < n * h * w" using assms(6) by (simp add: algebra_simps)
qed

lemma set_pixel_ok:
  assumes sz: "sized im" and y: "0 \<le> y" "y < height im" and x: "0 \<le> x" "x < width im"
  shows "\<exists>im'. set_pixel im y x r g b = Some im' \<and> sized im' \<and> height im' = height im \<and> width im' = width im
           \<and> (\<forall>y' x' c. 0 \<le> x' \<and> x' < width im \<and> 0 \<le> c \<and> c < 3 \<longrightarrow>
                 get_pixel im' y' x' c =
                   (if y' = y \<and> x' = x then Some (word_of_int (if c = 0 then r else if c = 1 then g else b))
                    else get_pixel im y' x' c))"
proof -
  let ?k = "3 * (y * width im + x)"
  have len: "int (length (raster im)) = 3 * height im * width im" using sz by (simp add: sized_def)
  have b0: "0 \<le> ?k + 0" "?k + 0 < 3 * height im * width im"
    using pixel_index_bounds [OF y x, of 0 3] by auto
  have b2: "?k + 2 < 3 * height im * width im"
    using pixel_index_bounds [OF y x, of 2 3] by auto
  obtain m0 where m0: "arr_set (raster im) (?k + 0) (word_of_int r) = Some m0"
    using arr_set_ok [of "?k + 0" "raster im"] b0 b2 len by auto
  have l0: "length m0 = length (raster im)" using m0 by (rule arr_set_length)
  obtain m1 where m1: "arr_set m0 (?k + 1) (word_of_int g) = Some m1"
    using arr_set_ok [of "?k + 1" m0] b0 b2 len l0 by auto
  have l1: "length m1 = length (raster im)" using m1 l0 by (simp add: arr_set_length)
  obtain m2 where m2: "arr_set m1 (?k + 2) (word_of_int b) = Some m2"
    using arr_set_ok [of "?k + 2" m1] b0 b2 len l1 by auto
  have l2: "length m2 = length (raster im)" using m2 l1 by (simp add: arr_set_length)
  have sp: "set_pixel im y x r g b = Some (im\<lparr>raster := m2\<rparr>)"
    using m0 m1 m2 by (simp add: set_pixel_def)
  have get: "arr_get m2 k = (if k = ?k + 2 then Some (word_of_int b) else if k = ?k + 1 then Some (word_of_int g)
                else if k = ?k + 0 then Some (word_of_int r) else arr_get (raster im) k)" for k
    by (simp only: arr_get_set [OF m2] arr_get_set [OF m1] arr_get_set [OF m0])
  have px: "get_pixel (im\<lparr>raster := m2\<rparr>) y' x' c =
              (if y' = y \<and> x' = x then Some (word_of_int (if c = 0 then r else if c = 1 then g else b))
               else get_pixel im y' x' c)"
    if r: "0 \<le> x'" "x' < width im" "0 \<le> c" "c < 3" for y' x' c
  proof (cases "y' = y \<and> x' = x")
    case True
    with r show ?thesis by (auto simp: get_pixel_def get)
  next
    case False
    then have "y' * width im + x' \<noteq> y * width im + x"
      using cell_index_inj [OF r(1,2) x] by blast
    then have "3 * (y' * width im + x') + c \<noteq> ?k + d" if "0 \<le> d" "d < 3" for d
      using r(3,4) that by presburger
    from this [of 0] this [of 1] this [of 2]
    have "arr_get m2 (3 * (y' * width im + x') + c) = arr_get (raster im) (3 * (y' * width im + x') + c)"
      by (simp only: get) simp
    with False show ?thesis
      by (auto simp: get_pixel_def)
  qed
  show ?thesis
    using sp px l2 sz by (auto simp: sized_def)
qed

lemma get_pixel_ok:
  assumes "sized im" "None \<notin> set (raster im)" "0 \<le> y" "y < height im" "0 \<le> x" "x < width im" "0 \<le> c" "c < 3"
  shows "\<exists>v. get_pixel im y x c = Some v"
proof -
  have "0 \<le> 3 * (y * width im + x) + c" "3 * (y * width im + x) + c < int (length (raster im))"
    using pixel_index_bounds [OF assms(3-8)] assms(1) by (auto simp: sized_def)
  then show ?thesis
    using assms(2) by (auto simp: get_pixel_def arr_get_def in_set_conv_nth)
qed

section \<open>The energy\<close>

subsection \<open>The integer square root\<close>

lemma isqrt_from_spec:
  "0 \<le> k \<Longrightarrow> k * k \<le> n \<Longrightarrow>
     k \<le> isqrt_from k n \<and> isqrt_from k n * isqrt_from k n \<le> n
       \<and> n < (isqrt_from k n + 1) * (isqrt_from k n + 1)"
proof (induction k n rule: isqrt_from.induct)
  case (1 k n)
  show ?case
  proof (cases "0 \<le> k \<and> (k + 1) * (k + 1) \<le> n")
    case True
    then have eq: "isqrt_from k n = isqrt_from (k + 1) n"
      by (subst isqrt_from.simps) (simp only: if_True simp_thms)
    from "1.IH" [OF True] True "1.prems" show ?thesis
      unfolding eq by auto
  next
    case False
    then have "isqrt_from k n = k"
      by (subst isqrt_from.simps) (simp only: if_False)
    with False "1.prems" show ?thesis by auto
  qed
qed

lemma sqrt_c_spec:
  assumes "0 \<le> n"
  shows "0 \<le> sqrt_c n" and "sqrt_c n * sqrt_c n \<le> n" and "n < (sqrt_c n + 1) * (sqrt_c n + 1)"
  using isqrt_from_spec [of 0 n] assms by (auto simp: sqrt_c_def)

lemma sqrt_c_floor:
  assumes "0 \<le> n"
  shows "sqrt_c n = \<lfloor>sqrt (real_of_int n)\<rfloor>"
proof -
  let ?r = "sqrt_c n"
  note s = sqrt_c_spec [OF assms]
  have "real_of_int (?r * ?r) \<le> real_of_int n" using s(2) by (simp only: of_int_le_iff)
  then have "(real_of_int ?r)\<^sup>2 \<le> real_of_int n" by (simp add: power2_eq_square)
  then have a: "real_of_int ?r \<le> sqrt (real_of_int n)" by (rule real_le_rsqrt)
  have "real_of_int n < real_of_int ((?r + 1) * (?r + 1))" using s(3) by (simp only: of_int_less_iff)
  then have "real_of_int n < (real_of_int ?r + 1)\<^sup>2" by (simp add: power2_eq_square)
  moreover have "0 \<le> real_of_int ?r + 1" using s(1) by simp
  ultimately have b: "sqrt (real_of_int n) < real_of_int ?r + 1"
    by (intro real_less_lsqrt) auto
  show ?thesis using a b by (simp add: floor_unique)
qed

lemma sqrt_c_le:
  assumes "0 \<le> n" "0 \<le> m" "n < (m + 1) * (m + 1)"
  shows "sqrt_c n \<le> m"
proof (rule ccontr)
  assume "\<not> sqrt_c n \<le> m"
  then have "m + 1 \<le> sqrt_c n" by simp
  then have "(m + 1) * (m + 1) \<le> sqrt_c n * sqrt_c n"
    using assms(2) by (intro mult_mono) auto
  with sqrt_c_spec(2) [OF assms(1)] assms(3) show False by linarith
qed

subsection \<open>\<^verbatim>\<open>calc_energy\<close> of \<^verbatim>\<open>seamcarving.c\<close>\<close>

lemma byte_diff_sq:
  fixes a b :: "8 word"
  shows "0 \<le> (uint a - uint b) * (uint a - uint b)"
    and "(uint a - uint b) * (uint a - uint b) \<le> 65025"
proof -
  have "uint a < 256" "uint b < 256" "0 \<le> uint a" "0 \<le> uint b"
    using uint_bounded [of a] uint_bounded [of b] by auto
  then have "\<bar>uint a - uint b\<bar> \<le> 255" by linarith
  then have "\<bar>uint a - uint b\<bar> * \<bar>uint a - uint b\<bar> \<le> 255 * 255"
    by (intro mult_mono) auto
  then show "(uint a - uint b) * (uint a - uint b) \<le> 65025" by (simp add: abs_mult_self_eq)
  show "0 \<le> (uint a - uint b) * (uint a - uint b)" by simp
qed

lemma energy_sum_bound:
  assumes "energy_sum im j i = Some s"
  shows "0 \<le> s \<and> s \<le> 390150"
proof -
  from assms obtain a1 b1 a2 b2 a3 b3 a4 b4 a5 b5 a6 b6 :: "8 word" where
    "s = (uint a1 - uint b1) * (uint a1 - uint b1) + (uint a3 - uint b3) * (uint a3 - uint b3)
           + (uint a2 - uint b2) * (uint a2 - uint b2)
         + ((uint a4 - uint b4) * (uint a4 - uint b4) + (uint a6 - uint b6) * (uint a6 - uint b6)
           + (uint a5 - uint b5) * (uint a5 - uint b5))"
    by (auto simp: energy_sum_def Let_def split: Option.bind_splits)
  then show ?thesis
    using byte_diff_sq [of a1 b1] byte_diff_sq [of a2 b2] byte_diff_sq [of a3 b3]
      byte_diff_sq [of a4 b4] byte_diff_sq [of a5 b5] byte_diff_sq [of a6 b6]
    by linarith
qed

lemma energy_sum_ok:
  assumes wf: "wf_img im" and j: "0 \<le> j" "j < height im" and i: "0 \<le> i" "i < width im"
  shows "\<exists>s. energy_sum im j i = Some s"
proof -
  have sz: "sized im" and nn: "None \<notin> set (raster im)" using wf by (auto simp: wf_img_def)
  define k_left where "k_left = (if i = 0 then width im - 1 else i - 1)"
  define k_right where "k_right = (if i = width im - 1 then 0 else i + 1)"
  define k_up where "k_up = (if j = 0 then height im - 1 else j - 1)"
  define k_down where "k_down = (if j = height im - 1 then 0 else j + 1)"
  have r: "0 \<le> k_left" "k_left < width im" "0 \<le> k_right" "k_right < width im"
    "0 \<le> k_up" "k_up < height im" "0 \<le> k_down" "k_down < height im"
    using i j by (auto simp: k_left_def k_right_def k_up_def k_down_def)
  have g: "\<exists>v. get_pixel im y x c = Some v"
    if "0 \<le> y" "y < height im" "0 \<le> x" "x < width im" "0 \<le> c" "c < 3" for y x c
    using get_pixel_ok [OF sz nn that] .
  obtain rr rl gr gl br bl ru rd gu gd bu bd where
    "get_pixel im j k_right 0 = Some rr" "get_pixel im j k_left 0 = Some rl"
    "get_pixel im j k_right 1 = Some gr" "get_pixel im j k_left 1 = Some gl"
    "get_pixel im j k_right 2 = Some br" "get_pixel im j k_left 2 = Some bl"
    "get_pixel im k_up i 0 = Some ru" "get_pixel im k_down i 0 = Some rd"
    "get_pixel im k_up i 1 = Some gu" "get_pixel im k_down i 1 = Some gd"
    "get_pixel im k_up i 2 = Some bu" "get_pixel im k_down i 2 = Some bd"
    using g [OF j r(3,4), of 0] g [OF j r(1,2), of 0] g [OF j r(3,4), of 1] g [OF j r(1,2), of 1]
      g [OF j r(3,4), of 2] g [OF j r(1,2), of 2]
      g [OF r(5,6) i, of 0] g [OF r(7,8) i, of 0] g [OF r(5,6) i, of 1] g [OF r(7,8) i, of 1]
      g [OF r(5,6) i, of 2] g [OF r(7,8) i, of 2]
    by auto
  then show ?thesis
    unfolding energy_sum_def Let_def k_left_def [symmetric] k_right_def [symmetric]
      k_up_def [symmetric] k_down_def [symmetric]
    by simp
qed

lemma sized_create_img:
  "0 \<le> h \<Longrightarrow> 0 \<le> w \<Longrightarrow> sized (create_img h w) \<and> height (create_img h w) = h \<and> width (create_img h w) = w"
  by (simp add: sized_def create_img_def malloc_def)

lemma energy_norm_eq:
  "energy_sum im j i = Some s \<Longrightarrow>
     energy_norm im j i = Some (uint (word_of_int (sqrt_c s div 10) :: 8 word))"
  by (simp add: energy_norm_def)

lemma calc_energy_correct:
  assumes wf: "wf_img im"
  shows "\<exists>grad. calc_energy im = Some grad \<and> sized grad
           \<and> height grad = height im \<and> width grad = width im
           \<and> (\<forall>y x c. 0 \<le> y \<and> y < height im \<and> 0 \<le> x \<and> x < width im \<and> 0 \<le> c \<and> c < 3 \<longrightarrow>
                 (\<exists>s. energy_sum im y x = Some s
                     \<and> get_pixel grad y x c = Some (word_of_int (sqrt_c s div 10))))"
proof -
  define H W where "H = height im" and "W = width im"
  have hw: "0 \<le> H" "0 \<le> W" using wf by (auto simp: wf_img_def sized_def H_def W_def)
  define I where "I = (\<lambda>j i g. sized g \<and> height g = H \<and> width g = W
      \<and> (\<forall>y x c. 0 \<le> y \<and> 0 \<le> x \<and> x < W \<and> 0 \<le> c \<and> c < 3 \<and> (y < j \<or> (y = j \<and> x < i)) \<longrightarrow>
            (\<exists>s. energy_sum im y x = Some s
                \<and> get_pixel g y x c = Some (word_of_int (sqrt_c s div 10)))))"
  define body where "body = (\<lambda>j i grad. do { e \<leftarrow> energy_norm im j i; set_pixel grad j i e e e })"
  have init: "I 0 0 (create_img H W)"
    using sized_create_img [OF hw] by (auto simp: I_def)
  have step: "\<exists>t'. body j i t = Some t' \<and> I j (i + 1) t'"
    if j: "0 \<le> j" "j < H" and i: "0 \<le> i" "i < W" and t: "I j i t" for j i t
  proof -
    from energy_sum_ok [OF wf] j i obtain s where s: "energy_sum im j i = Some s"
      by (auto simp: H_def W_def)
    define e where "e = uint (word_of_int (sqrt_c s div 10) :: 8 word)"
    have en: "energy_norm im j i = Some e" using energy_norm_eq [OF s] by (simp add: e_def)
    have tsz: "sized t" "height t = H" "width t = W" using t by (auto simp: I_def)
    from set_pixel_ok [OF tsz(1), of j i e e e] j i tsz
    obtain t' where t': "set_pixel t j i e e e = Some t'" "sized t'" "height t' = H" "width t' = W"
      and px: "\<And>y' x' c. 0 \<le> x' \<Longrightarrow> x' < W \<Longrightarrow> 0 \<le> c \<Longrightarrow> c < 3 \<Longrightarrow>
                 get_pixel t' y' x' c =
                   (if y' = j \<and> x' = i then Some (word_of_int (if c = 0 then e else if c = 1 then e else e))
                    else get_pixel t y' x' c)"
      by auto
    have we: "(word_of_int e :: 8 word) = word_of_int (sqrt_c s div 10)" by (simp add: e_def)
    have "\<exists>s'. energy_sum im y x = Some s' \<and> get_pixel t' y x c = Some (word_of_int (sqrt_c s' div 10))"
      if r: "0 \<le> y" "0 \<le> x" "x < W" "0 \<le> c" "c < 3" "y < j \<or> (y = j \<and> x < i + 1)" for y x c
    proof (cases "y = j \<and> x = i")
      case True
      then show ?thesis using px [OF r(2-5), of y] s we by simp
    next
      case False
      then have "y < j \<or> (y = j \<and> x < i)" using r(6) by auto
      with t r have "\<exists>s'. energy_sum im y x = Some s' \<and> get_pixel t y x c = Some (word_of_int (sqrt_c s' div 10))"
        by (simp add: I_def)
      then show ?thesis using px [OF r(2-5), of y] False by auto
    qed
    then have "I j (i + 1) t'" using t' by (simp add: I_def)
    moreover have "body j i t = Some t'" using en t' by (simp add: body_def)
    ultimately show ?thesis by blast
  qed
  have row: "I (j + 1) 0 t" if a: "0 \<le> j" "j < H" "I j W t" for j t
  proof -
    have "\<exists>s. energy_sum im y x = Some s \<and> get_pixel t y x c = Some (word_of_int (sqrt_c s div 10))"
      if r: "0 \<le> y" "0 \<le> x" "x < W" "0 \<le> c" "c < 3" "y < j + 1 \<or> (y = j + 1 \<and> x < 0)" for y x c
    proof -
      from r have "y < j \<or> (y = j \<and> x < W)" by linarith
      with a(3) r show ?thesis unfolding I_def by blast
    qed
    with a(3) show ?thesis unfolding I_def by blast
  qed
  from for_loop2_rule [where I = I and body = body, OF hw init step row]
  obtain grad where g: "for_loop 0 H (\<lambda>j. for_loop 0 W (body j)) (create_img H W) = Some grad" "I H 0 grad"
    by blast
  have "calc_energy im = Some grad"
    using g(1) by (simp add: calc_energy_def body_def H_def W_def)
  then show ?thesis using g(2) unfolding I_def H_def W_def by auto
qed

subsection \<open>\<^verbatim>\<open>calc_energy\<close> of \<^verbatim>\<open>seamcarving_wasm.c\<close>\<close>

lemma set_pixel_wasm_ok:
  assumes len: "int (length rast) = 4 * h * w" and y: "0 \<le> y" "y < h" and x: "0 \<le> x" "x < w"
  shows "\<exists>rast'. set_pixel_wasm rast w y x r g b a = Some rast' \<and> length rast' = length rast
           \<and> (\<forall>y' x' c. 0 \<le> x' \<and> x' < w \<and> 0 \<le> c \<and> c < 4 \<longrightarrow>
                 get_pixel_wasm rast' w y' x' c =
                   (if y' = y \<and> x' = x
                    then Some (word_of_int (if c = 0 then r else if c = 1 then g else if c = 2 then b else a))
                    else get_pixel_wasm rast w y' x' c))"
proof -
  let ?k = "4 * (y * w + x)"
  have b0: "0 \<le> ?k + 0" "?k + 0 < 4 * h * w"
    using pixel_index_bounds [OF y x, of 0 4] by auto
  have b3: "?k + 3 < 4 * h * w"
    using pixel_index_bounds [OF y x, of 3 4] by auto
  obtain m0 where m0: "arr_set rast (?k + 0) (word_of_int r) = Some m0"
    using arr_set_ok [of "?k + 0" rast] b0 b3 len by auto
  have l0: "length m0 = length rast" using m0 by (rule arr_set_length)
  obtain m1 where m1: "arr_set m0 (?k + 1) (word_of_int g) = Some m1"
    using arr_set_ok [of "?k + 1" m0] b0 b3 len l0 by auto
  have l1: "length m1 = length rast" using m1 l0 by (simp add: arr_set_length)
  obtain m2 where m2: "arr_set m1 (?k + 2) (word_of_int b) = Some m2"
    using arr_set_ok [of "?k + 2" m1] b0 b3 len l1 by auto
  have l2: "length m2 = length rast" using m2 l1 by (simp add: arr_set_length)
  obtain m3 where m3: "arr_set m2 (?k + 3) (word_of_int a) = Some m3"
    using arr_set_ok [of "?k + 3" m2] b0 b3 len l2 by auto
  have l3: "length m3 = length rast" using m3 l2 by (simp add: arr_set_length)
  have sp: "set_pixel_wasm rast w y x r g b a = Some m3"
    using m0 m1 m2 m3 by (simp add: set_pixel_wasm_def)
  have get: "arr_get m3 k = (if k = ?k + 3 then Some (word_of_int a) else if k = ?k + 2 then Some (word_of_int b)
                else if k = ?k + 1 then Some (word_of_int g)
                else if k = ?k + 0 then Some (word_of_int r) else arr_get rast k)" for k
    by (simp only: arr_get_set [OF m3] arr_get_set [OF m2] arr_get_set [OF m1] arr_get_set [OF m0])
  have px: "get_pixel_wasm m3 w y' x' c =
              (if y' = y \<and> x' = x
               then Some (word_of_int (if c = 0 then r else if c = 1 then g else if c = 2 then b else a))
               else get_pixel_wasm rast w y' x' c)"
    if r: "0 \<le> x'" "x' < w" "0 \<le> c" "c < 4" for y' x' c
  proof (cases "y' = y \<and> x' = x")
    case True
    with r show ?thesis by (auto simp: get_pixel_wasm_def get)
  next
    case False
    then have "y' * w + x' \<noteq> y * w + x"
      using cell_index_inj [OF r(1,2) x] by blast
    then have "4 * (y' * w + x') + c \<noteq> ?k + d" if "0 \<le> d" "d < 4" for d
      using r(3,4) that by presburger
    from this [of 0] this [of 1] this [of 2] this [of 3]
    have "arr_get m3 (4 * (y' * w + x') + c) = arr_get rast (4 * (y' * w + x') + c)"
      by (simp only: get) simp
    with False show ?thesis
      by (auto simp: get_pixel_wasm_def)
  qed
  show ?thesis
    using sp px l3 by auto
qed

lemma get_pixel_wasm_ok:
  assumes "wf_rgba src h w" "0 \<le> y" "y < h" "0 \<le> x" "x < w" "0 \<le> c" "c < 4"
  shows "\<exists>v. get_pixel_wasm src w y x c = Some v"
proof -
  have "0 \<le> 4 * (y * w + x) + c" "4 * (y * w + x) + c < int (length src)"
    using pixel_index_bounds [OF assms(2-7)] assms(1) by (auto simp: wf_rgba_def)
  moreover have "None \<notin> set src" using assms(1) by (simp add: wf_rgba_def)
  ultimately show ?thesis
    by (auto simp: get_pixel_wasm_def arr_get_def in_set_conv_nth)
qed

lemma energy_sum_wasm_bound:
  assumes "energy_sum_wasm src h w j i = Some s"
  shows "0 \<le> s \<and> s \<le> 390150"
proof -
  from assms obtain a1 b1 a2 b2 a3 b3 a4 b4 a5 b5 a6 b6 :: "8 word" where
    "s = (uint a1 - uint b1) * (uint a1 - uint b1) + (uint a2 - uint b2) * (uint a2 - uint b2)
           + (uint a3 - uint b3) * (uint a3 - uint b3)
         + ((uint a4 - uint b4) * (uint a4 - uint b4) + (uint a5 - uint b5) * (uint a5 - uint b5)
           + (uint a6 - uint b6) * (uint a6 - uint b6))"
    by (auto simp: energy_sum_wasm_def Let_def split: Option.bind_splits)
  then show ?thesis
    using byte_diff_sq [of a1 b1] byte_diff_sq [of a2 b2] byte_diff_sq [of a3 b3]
      byte_diff_sq [of a4 b4] byte_diff_sq [of a5 b5] byte_diff_sq [of a6 b6]
    by linarith
qed

lemma energy_sum_wasm_ok:
  assumes wf: "wf_rgba src h w" and j: "0 \<le> j" "j < h" and i: "0 \<le> i" "i < w"
  shows "\<exists>s. energy_sum_wasm src h w j i = Some s"
proof -
  define k_left where "k_left = (if i = 0 then w - 1 else i - 1)"
  define k_right where "k_right = (if i = w - 1 then 0 else i + 1)"
  define k_up where "k_up = (if j = 0 then h - 1 else j - 1)"
  define k_down where "k_down = (if j = h - 1 then 0 else j + 1)"
  have r: "0 \<le> k_left" "k_left < w" "0 \<le> k_right" "k_right < w"
    "0 \<le> k_up" "k_up < h" "0 \<le> k_down" "k_down < h"
    using i j by (auto simp: k_left_def k_right_def k_up_def k_down_def)
  have g: "\<exists>v. get_pixel_wasm src w y x c = Some v"
    if "0 \<le> y" "y < h" "0 \<le> x" "x < w" "0 \<le> c" "c < 4" for y x c
    using get_pixel_wasm_ok [OF wf that] .
  obtain rr rl gr gl br bl ru rd gu gd bu bd where
    "get_pixel_wasm src w j k_right 0 = Some rr" "get_pixel_wasm src w j k_left 0 = Some rl"
    "get_pixel_wasm src w j k_right 1 = Some gr" "get_pixel_wasm src w j k_left 1 = Some gl"
    "get_pixel_wasm src w j k_right 2 = Some br" "get_pixel_wasm src w j k_left 2 = Some bl"
    "get_pixel_wasm src w k_up i 0 = Some ru" "get_pixel_wasm src w k_down i 0 = Some rd"
    "get_pixel_wasm src w k_up i 1 = Some gu" "get_pixel_wasm src w k_down i 1 = Some gd"
    "get_pixel_wasm src w k_up i 2 = Some bu" "get_pixel_wasm src w k_down i 2 = Some bd"
    using g [OF j r(3,4), of 0] g [OF j r(1,2), of 0] g [OF j r(3,4), of 1] g [OF j r(1,2), of 1]
      g [OF j r(3,4), of 2] g [OF j r(1,2), of 2]
      g [OF r(5,6) i, of 0] g [OF r(7,8) i, of 0] g [OF r(5,6) i, of 1] g [OF r(7,8) i, of 1]
      g [OF r(5,6) i, of 2] g [OF r(7,8) i, of 2]
    by auto
  then show ?thesis
    unfolding energy_sum_wasm_def Let_def k_left_def [symmetric] k_right_def [symmetric]
      k_up_def [symmetric] k_down_def [symmetric]
    by simp
qed

lemma calc_energy_wasm_correct:
  assumes wf: "wf_rgba src h w" and len: "int (length dest) = 4 * h * w"
  shows "\<exists>em. calc_energy_wasm src dest h w = Some em \<and> length em = length dest
           \<and> (\<forall>y x c. 0 \<le> y \<and> y < h \<and> 0 \<le> x \<and> x < w \<and> 0 \<le> c \<and> c < 4 \<longrightarrow>
                 (\<exists>s. energy_sum_wasm src h w y x = Some s
                     \<and> get_pixel_wasm em w y x c
                         = Some (if c = 3 then 255 else word_of_int (sqrt_c s div 10))))"
proof -
  have hw: "0 \<le> h" "0 \<le> w" using wf by (auto simp: wf_rgba_def)
  define I where "I = (\<lambda>j i g. length g = length dest
      \<and> (\<forall>y x c. 0 \<le> y \<and> 0 \<le> x \<and> x < w \<and> 0 \<le> c \<and> c < 4 \<and> (y < j \<or> (y = j \<and> x < i)) \<longrightarrow>
            (\<exists>s. energy_sum_wasm src h w y x = Some s
                \<and> get_pixel_wasm g w y x c
                     = Some (if c = 3 then 255 else word_of_int (sqrt_c s div 10)))))"
  define body where "body = (\<lambda>j i dest. do {
          s \<leftarrow> energy_sum_wasm src h w j i;
          let energy = sqrt_c s; energy_norm = energy div 10
          in set_pixel_wasm dest w j i energy_norm energy_norm energy_norm 255
        })"
  have init: "I 0 0 dest"
    by (auto simp: I_def)
  have step: "\<exists>t'. body j i t = Some t' \<and> I j (i + 1) t'"
    if j: "0 \<le> j" "j < h" and i: "0 \<le> i" "i < w" and t: "I j i t" for j i t
  proof -
    from energy_sum_wasm_ok [OF wf j i] obtain s where s: "energy_sum_wasm src h w j i = Some s"
      by auto
    define e where "e = sqrt_c s div 10"
    have tl: "int (length t) = 4 * h * w" using t len by (auto simp: I_def)
    from set_pixel_wasm_ok [OF tl j i, of e e e 255]
    obtain t' where t': "set_pixel_wasm t w j i e e e 255 = Some t'" "length t' = length t"
      and px: "\<And>y' x' c. 0 \<le> x' \<Longrightarrow> x' < w \<Longrightarrow> 0 \<le> c \<Longrightarrow> c < 4 \<Longrightarrow>
                 get_pixel_wasm t' w y' x' c =
                   (if y' = j \<and> x' = i
                    then Some (word_of_int (if c = 0 then e else if c = 1 then e else if c = 2 then e else 255))
                    else get_pixel_wasm t w y' x' c)"
      by auto
    have "\<exists>s'. energy_sum_wasm src h w y x = Some s'
             \<and> get_pixel_wasm t' w y x c = Some (if c = 3 then 255 else word_of_int (sqrt_c s' div 10))"
      if r: "0 \<le> y" "0 \<le> x" "x < w" "0 \<le> c" "c < 4" "y < j \<or> (y = j \<and> x < i + 1)" for y x c
    proof (cases "y = j \<and> x = i")
      case True
      then show ?thesis using px [OF r(2-5), of y] s r(4,5) by (auto simp: e_def)
    next
      case False
      then have "y < j \<or> (y = j \<and> x < i)" using r(6) by auto
      with t r have "\<exists>s'. energy_sum_wasm src h w y x = Some s'
             \<and> get_pixel_wasm t w y x c = Some (if c = 3 then 255 else word_of_int (sqrt_c s' div 10))"
        unfolding I_def by blast
      then show ?thesis using px [OF r(2-5), of y] False by auto
    qed
    then have "I j (i + 1) t'" using t' t unfolding I_def by auto
    moreover have "body j i t = Some t'" using s t' by (simp add: body_def e_def)
    ultimately show ?thesis by blast
  qed
  have row: "I (j + 1) 0 t" if a: "0 \<le> j" "j < h" "I j w t" for j t
  proof -
    have "\<exists>s. energy_sum_wasm src h w y x = Some s
            \<and> get_pixel_wasm t w y x c = Some (if c = 3 then 255 else word_of_int (sqrt_c s div 10))"
      if r: "0 \<le> y" "0 \<le> x" "x < w" "0 \<le> c" "c < 4" "y < j + 1 \<or> (y = j + 1 \<and> x < 0)" for y x c
    proof -
      from r have "y < j \<or> (y = j \<and> x < w)" by linarith
      with a(3) r show ?thesis unfolding I_def by blast
    qed
    with a(3) show ?thesis unfolding I_def by blast
  qed
  from for_loop2_rule [where I = I and body = body, OF hw init step row]
  obtain em where g: "for_loop 0 h (\<lambda>j. for_loop 0 w (body j)) dest = Some em" "I h 0 em"
    by blast
  have "calc_energy_wasm src dest h w = Some em"
    using g(1) by (simp add: calc_energy_wasm_def body_def)
  then show ?thesis using g(2) unfolding I_def by auto
qed

subsection \<open>The claims about the energy\<close>

lemma energy_small:
  assumes "0 \<le> s" "s \<le> 390150"
  shows "0 \<le> sqrt_c s" "sqrt_c s \<le> 624" "0 \<le> sqrt_c s div 10" "sqrt_c s div 10 \<le> 62"
    "uint (word_of_int (sqrt_c s div 10) :: 8 word) = sqrt_c s div 10"
proof -
  show a: "0 \<le> sqrt_c s" using sqrt_c_spec(1) [OF assms(1)] .
  show b: "sqrt_c s \<le> 624" using assms by (intro sqrt_c_le) auto
  show c: "0 \<le> sqrt_c s div 10" using a by simp
  show d: "sqrt_c s div 10 \<le> 62" using b by linarith
  show "uint (word_of_int (sqrt_c s div 10) :: 8 word) = sqrt_c s div 10"
    using c d by (simp add: uint_word_of_int take_bit_int_eq_self)
qed

text \<open>
  Claim C9. For every input raster, at every pixel, the energy before narrowing (the
  integer square root of the sum of the two squared gradients) is at most 624 and the
  normalised energy at most 62, so the cast to \<^verbatim>\<open>uint8_t\<close> leaves the value as it
  is. Stated for \<^verbatim>\<open>calc_energy\<close> of both source files.
\<close>

theorem energy_below_narrowing:
  assumes "wf_img im" "0 \<le> j" "j < height im" "0 \<le> i" "i < width im"
    and "wf_rgba src h w" "0 \<le> j'" "j' < h" "0 \<le> i'" "i' < w"
  shows "(\<exists>s. energy_sum im j i = Some s \<and> sqrt_c s \<le> 624 \<and> sqrt_c s div 10 \<le> 62
            \<and> uint (word_of_int (sqrt_c s div 10) :: 8 word) = sqrt_c s div 10
            \<and> energy_norm im j i = Some (sqrt_c s div 10))
       \<and> (\<exists>s. energy_sum_wasm src h w j' i' = Some s \<and> sqrt_c s \<le> 624 \<and> sqrt_c s div 10 \<le> 62
            \<and> uint (word_of_int (sqrt_c s div 10) :: 8 word) = sqrt_c s div 10)"
proof
  from energy_sum_ok [OF assms(1-5)] obtain s where s: "energy_sum im j i = Some s" by blast
  note b = energy_sum_bound [OF s]
  from b have sm: "sqrt_c s \<le> 624" "sqrt_c s div 10 \<le> 62"
    "uint (word_of_int (sqrt_c s div 10) :: 8 word) = sqrt_c s div 10"
    using energy_small [of s] by auto
  then have "energy_norm im j i = Some (sqrt_c s div 10)"
    using energy_norm_eq [OF s] by simp
  with s sm show "\<exists>s. energy_sum im j i = Some s \<and> sqrt_c s \<le> 624 \<and> sqrt_c s div 10 \<le> 62
            \<and> uint (word_of_int (sqrt_c s div 10) :: 8 word) = sqrt_c s div 10
            \<and> energy_norm im j i = Some (sqrt_c s div 10)" by blast
next
  from energy_sum_wasm_ok [OF assms(6-10)] obtain s where s: "energy_sum_wasm src h w j' i' = Some s" by blast
  note b = energy_sum_wasm_bound [OF s]
  from b have sm: "sqrt_c s \<le> 624" "sqrt_c s div 10 \<le> 62"
    "uint (word_of_int (sqrt_c s div 10) :: 8 word) = sqrt_c s div 10"
    using energy_small [of s] by auto
  with s show "\<exists>s. energy_sum_wasm src h w j' i' = Some s \<and> sqrt_c s \<le> 624 \<and> sqrt_c s div 10 \<le> 62
            \<and> uint (word_of_int (sqrt_c s div 10) :: 8 word) = sqrt_c s div 10" by blast
qed

theorem energy_below_narrowing_witness:
  "wf_img \<lparr>raster = map Some [0,0,0, 0,0,0, 255,255,255,  0,0,0, 0,0,0, 0,0,0], height = 2, width = 3\<rparr>
   \<and> wf_rgba (map Some [0,0,0,255, 0,0,0,255, 255,255,255,255,  0,0,0,255, 0,0,0,255, 0,0,0,255]) 2 3
   \<and> (\<exists>s. energy_sum \<lparr>raster = map Some [0,0,0, 0,0,0, 255,255,255,  0,0,0, 0,0,0, 0,0,0],
                        height = 2, width = 3\<rparr> 0 0 = Some s \<and> sqrt_c s \<le> 624)
   \<and> (\<exists>s. energy_sum_wasm (map Some [0,0,0,255, 0,0,0,255, 255,255,255,255,
                                      0,0,0,255, 0,0,0,255, 0,0,0,255]) 2 3 0 0 = Some s
          \<and> sqrt_c s \<le> 624)"
proof -
  let ?im = "\<lparr>raster = map Some [0,0,0, 0,0,0, 255,255,255,  0,0,0, 0,0,0, 0,0,0], height = 2, width = 3\<rparr>"
  let ?src = "map Some [0,0,0,255, 0,0,0,255, 255,255,255,255,  0,0,0,255, 0,0,0,255, 0,0,0,255] :: 8 word buffer"
  have a: "wf_img ?im" by (simp add: wf_img_def sized_def)
  have b: "wf_rgba ?src 2 3" by (simp add: wf_rgba_def)
  from energy_below_narrowing [OF a _ _ _ _ b, of 0 0 0 0] a b show ?thesis
    by simp blast
qed

lemma floor_sqrt_div:
  assumes "0 \<le> s"
  shows "\<lfloor>real_of_int \<lfloor>sqrt (real_of_int s)\<rfloor> / 10\<rfloor> = sqrt_c s div 10"
proof -
  have "\<lfloor>real_of_int (sqrt_c s) / real_of_int 10\<rfloor> = sqrt_c s div 10"
    by (rule floor_divide_of_int_eq)
  then show ?thesis
    by (simp add: sqrt_c_floor [OF assms])
qed

text \<open>The sum of the source is the sum of the spec, on a raster that holds the bytes \<open>P\<close>.\<close>

lemma energy_sum_spec:
  assumes "0 \<le> j" "j < height im" "0 \<le> i" "i < width im"
    and px: "\<And>y x c. 0 \<le> y \<Longrightarrow> y < height im \<Longrightarrow> 0 \<le> x \<Longrightarrow> x < width im \<Longrightarrow> 0 \<le> c \<Longrightarrow> c < 3 \<Longrightarrow>
               get_pixel im y x c = Some (P y x c)"
  shows "energy_sum im j i = Some (spec_gradX2 P (width im) j i + spec_gradY2 P (height im) j i)"
proof -
  define l r u d where "l = spec_left (width im) i" and "r = spec_right (width im) i"
    and "u = spec_up (height im) j" and "d = spec_down (height im) j"
  have rng: "0 \<le> l" "l < width im" "0 \<le> r" "r < width im"
      "0 \<le> u" "u < height im" "0 \<le> d" "d < height im"
    using assms(1-4) by (auto simp: l_def r_def u_def d_def spec_left_def spec_right_def
        spec_up_def spec_down_def)
  have h: "get_pixel im j r c = Some (P j r c)" "get_pixel im j l c = Some (P j l c)"
    if "0 \<le> c" "c < 3" for c
    using px [OF assms(1,2) rng(3,4) that] px [OF assms(1,2) rng(1,2) that] by auto
  have v: "get_pixel im u i c = Some (P u i c)" "get_pixel im d i c = Some (P d i c)"
    if "0 \<le> c" "c < 3" for c
    using px [OF rng(5,6) assms(3,4) that] px [OF rng(7,8) assms(3,4) that] by auto
  have e: "energy_sum im j i = do {
        rr \<leftarrow> get_pixel im j r 0; rl \<leftarrow> get_pixel im j l 0;
        gr \<leftarrow> get_pixel im j r 1; gl \<leftarrow> get_pixel im j l 1;
        br \<leftarrow> get_pixel im j r 2; bl \<leftarrow> get_pixel im j l 2;
        ru \<leftarrow> get_pixel im u i 0; rd \<leftarrow> get_pixel im d i 0;
        gu \<leftarrow> get_pixel im u i 1; gd \<leftarrow> get_pixel im d i 1;
        bu \<leftarrow> get_pixel im u i 2; bd \<leftarrow> get_pixel im d i 2;
        Some ((uint rr - uint rl) * (uint rr - uint rl) + (uint br - uint bl) * (uint br - uint bl)
              + (uint gr - uint gl) * (uint gr - uint gl)
              + ((uint ru - uint rd) * (uint ru - uint rd) + (uint bu - uint bd) * (uint bu - uint bd)
              + (uint gu - uint gd) * (uint gu - uint gd)))
      }"
    unfolding energy_sum_def l_def r_def u_def d_def spec_left_def spec_right_def
      spec_up_def spec_down_def Let_def ..
  show ?thesis
    unfolding e
    by (simp add: h v spec_gradX2_def spec_gradY2_def power2_eq_square
        l_def [symmetric] r_def [symmetric] u_def [symmetric] d_def [symmetric])
qed

lemma energy_sum_wasm_spec:
  assumes "0 \<le> j" "j < h" "0 \<le> i" "i < w"
    and px: "\<And>y x c. 0 \<le> y \<Longrightarrow> y < h \<Longrightarrow> 0 \<le> x \<Longrightarrow> x < w \<Longrightarrow> 0 \<le> c \<Longrightarrow> c < 3 \<Longrightarrow>
               get_pixel_wasm src w y x c = Some (Q y x c)"
  shows "energy_sum_wasm src h w j i = Some (spec_gradX2 Q w j i + spec_gradY2 Q h j i)"
proof -
  define l r u d where "l = spec_left w i" and "r = spec_right w i"
    and "u = spec_up h j" and "d = spec_down h j"
  have rng: "0 \<le> l" "l < w" "0 \<le> r" "r < w" "0 \<le> u" "u < h" "0 \<le> d" "d < h"
    using assms(1-4) by (auto simp: l_def r_def u_def d_def spec_left_def spec_right_def
        spec_up_def spec_down_def)
  have hh: "get_pixel_wasm src w j r c = Some (Q j r c)" "get_pixel_wasm src w j l c = Some (Q j l c)"
    if "0 \<le> c" "c < 3" for c
    using px [OF assms(1,2) rng(3,4) that] px [OF assms(1,2) rng(1,2) that] by auto
  have v: "get_pixel_wasm src w u i c = Some (Q u i c)" "get_pixel_wasm src w d i c = Some (Q d i c)"
    if "0 \<le> c" "c < 3" for c
    using px [OF rng(5,6) assms(3,4) that] px [OF rng(7,8) assms(3,4) that] by auto
  have e: "energy_sum_wasm src h w j i = do {
        rr \<leftarrow> get_pixel_wasm src w j r 0; rl \<leftarrow> get_pixel_wasm src w j l 0;
        gr \<leftarrow> get_pixel_wasm src w j r 1; gl \<leftarrow> get_pixel_wasm src w j l 1;
        br \<leftarrow> get_pixel_wasm src w j r 2; bl \<leftarrow> get_pixel_wasm src w j l 2;
        ru \<leftarrow> get_pixel_wasm src w u i 0; rd \<leftarrow> get_pixel_wasm src w d i 0;
        gu \<leftarrow> get_pixel_wasm src w u i 1; gd \<leftarrow> get_pixel_wasm src w d i 1;
        bu \<leftarrow> get_pixel_wasm src w u i 2; bd \<leftarrow> get_pixel_wasm src w d i 2;
        Some ((uint rr - uint rl) * (uint rr - uint rl) + (uint gr - uint gl) * (uint gr - uint gl)
              + (uint br - uint bl) * (uint br - uint bl)
              + ((uint ru - uint rd) * (uint ru - uint rd) + (uint gu - uint gd) * (uint gu - uint gd)
              + (uint bu - uint bd) * (uint bu - uint bd)))
      }"
    unfolding energy_sum_wasm_def l_def r_def u_def d_def spec_left_def spec_right_def
      spec_up_def spec_down_def Let_def ..
  show ?thesis
    unfolding e
    by (simp add: hh v spec_gradX2_def spec_gradY2_def power2_eq_square
        l_def [symmetric] r_def [symmetric] u_def [symmetric] d_def [symmetric])
qed

text \<open>
  Claim C7. For every pixel \<open>(j, i)\<close> of every input raster the byte stored by
  \<^verbatim>\<open>calc_energy\<close> is \<open>\<lfloor>\<lfloor>sqrt (gradX\<^sup>2 + gradY\<^sup>2)\<rfloor> / 10\<rfloor> mod 256\<close>, the same in the three
  colour channels, where \<open>gradX\<^sup>2\<close> and \<open>gradY\<^sup>2\<close> are the sums of the squared differences
  of the bytes that \<^verbatim>\<open>get_pixel\<close> reads at the wrap-around neighbours of \<open>(j, i)\<close> in the
  input raster. Stated for \<^verbatim>\<open>calc_energy\<close> of both source files; \<open>P\<close> and \<open>Q\<close> name the
  bytes of the two input rasters.
\<close>

theorem energy_stored_truncated:
  assumes "wf_img im" "0 \<le> j" "j < height im" "0 \<le> i" "i < width im"
    and "\<forall>y x c. 0 \<le> y \<and> y < height im \<and> 0 \<le> x \<and> x < width im \<and> 0 \<le> c \<and> c < 3 \<longrightarrow>
           get_pixel im y x c = Some (P y x c)"
    and "wf_rgba src h w" "int (length dest) = 4 * h * w" "0 \<le> j'" "j' < h" "0 \<le> i'" "i' < w"
    and "\<forall>y x c. 0 \<le> y \<and> y < h \<and> 0 \<le> x \<and> x < w \<and> 0 \<le> c \<and> c < 3 \<longrightarrow>
           get_pixel_wasm src w y x c = Some (Q y x c)"
  shows "(\<exists>grad v. calc_energy im = Some grad
            \<and> uint v = \<lfloor>real_of_int \<lfloor>sqrt (real_of_int
                  (spec_gradX2 P (width im) j i + spec_gradY2 P (height im) j i))\<rfloor> / 10\<rfloor> mod 256
            \<and> get_pixel grad j i 0 = Some v \<and> get_pixel grad j i 1 = Some v
            \<and> get_pixel grad j i 2 = Some v)
       \<and> (\<exists>em v. calc_energy_wasm src dest h w = Some em
            \<and> uint v = \<lfloor>real_of_int \<lfloor>sqrt (real_of_int
                  (spec_gradX2 Q w j' i' + spec_gradY2 Q h j' i'))\<rfloor> / 10\<rfloor> mod 256
            \<and> get_pixel_wasm em w j' i' 0 = Some v \<and> get_pixel_wasm em w j' i' 1 = Some v
            \<and> get_pixel_wasm em w j' i' 2 = Some v)"
proof
  from calc_energy_correct [OF assms(1)] obtain grad where
    g: "calc_energy im = Some grad"
    and px: "\<And>y x c. 0 \<le> y \<Longrightarrow> y < height im \<Longrightarrow> 0 \<le> x \<Longrightarrow> x < width im \<Longrightarrow> 0 \<le> c \<Longrightarrow> c < 3 \<Longrightarrow>
               \<exists>s. energy_sum im y x = Some s \<and> get_pixel grad y x c = Some (word_of_int (sqrt_c s div 10))"
    by blast
  define s where "s = spec_gradX2 P (width im) j i + spec_gradY2 P (height im) j i"
  have "get_pixel im y x c = Some (P y x c)"
    if "0 \<le> y" "y < height im" "0 \<le> x" "x < width im" "0 \<le> c" "c < 3" for y x c
    using assms(6) that by blast
  from energy_sum_spec [OF assms(2-5) this]
  have s: "energy_sum im j i = Some s" by (simp add: s_def)
  define v :: "8 word" where "v = word_of_int (sqrt_c s div 10)"
  have "0 \<le> s" using energy_sum_bound [OF s] by simp
  then have u: "uint v = \<lfloor>real_of_int \<lfloor>sqrt (real_of_int s)\<rfloor> / 10\<rfloor> mod 256"
    by (simp add: v_def floor_sqrt_div uint_word_of_int take_bit_eq_mod)
  have "get_pixel grad j i c = Some v" if "0 \<le> c" "c < 3" for c
    using px [OF assms(2-5) that] s by (simp add: v_def)
  from this [of 0] this [of 1] this [of 2] g u
  show "\<exists>grad v. calc_energy im = Some grad
            \<and> uint v = \<lfloor>real_of_int \<lfloor>sqrt (real_of_int
                  (spec_gradX2 P (width im) j i + spec_gradY2 P (height im) j i))\<rfloor> / 10\<rfloor> mod 256
            \<and> get_pixel grad j i 0 = Some v \<and> get_pixel grad j i 1 = Some v
            \<and> get_pixel grad j i 2 = Some v"
    unfolding s_def by auto
next
  from calc_energy_wasm_correct [OF assms(7,8)] obtain em where
    g: "calc_energy_wasm src dest h w = Some em"
    and px: "\<And>y x c. 0 \<le> y \<Longrightarrow> y < h \<Longrightarrow> 0 \<le> x \<Longrightarrow> x < w \<Longrightarrow> 0 \<le> c \<Longrightarrow> c < 4 \<Longrightarrow>
               \<exists>s. energy_sum_wasm src h w y x = Some s
                 \<and> get_pixel_wasm em w y x c = Some (if c = 3 then 255 else word_of_int (sqrt_c s div 10))"
    by blast
  define s where "s = spec_gradX2 Q w j' i' + spec_gradY2 Q h j' i'"
  have "get_pixel_wasm src w y x c = Some (Q y x c)"
    if "0 \<le> y" "y < h" "0 \<le> x" "x < w" "0 \<le> c" "c < 3" for y x c
    using assms(13) that by blast
  from energy_sum_wasm_spec [OF assms(9-12) this]
  have s: "energy_sum_wasm src h w j' i' = Some s" by (simp add: s_def)
  define v :: "8 word" where "v = word_of_int (sqrt_c s div 10)"
  have "0 \<le> s" using energy_sum_wasm_bound [OF s] by simp
  then have u: "uint v = \<lfloor>real_of_int \<lfloor>sqrt (real_of_int s)\<rfloor> / 10\<rfloor> mod 256"
    by (simp add: v_def floor_sqrt_div uint_word_of_int take_bit_eq_mod)
  have "get_pixel_wasm em w j' i' c = Some v" if "0 \<le> c" "c < 3" for c
    using px [OF assms(9-12) that(1)] that s by (auto simp: v_def)
  from this [of 0] this [of 1] this [of 2] g u
  show "\<exists>em v. calc_energy_wasm src dest h w = Some em
            \<and> uint v = \<lfloor>real_of_int \<lfloor>sqrt (real_of_int
                  (spec_gradX2 Q w j' i' + spec_gradY2 Q h j' i'))\<rfloor> / 10\<rfloor> mod 256
            \<and> get_pixel_wasm em w j' i' 0 = Some v \<and> get_pixel_wasm em w j' i' 1 = Some v
            \<and> get_pixel_wasm em w j' i' 2 = Some v"
    unfolding s_def by auto
qed

theorem energy_stored_truncated_witness:
  "spec_gradX2 (\<lambda>y x c. if y = 0 \<and> x = 2 then 255 else 0) 3 0 0
     + spec_gradY2 (\<lambda>y x c. if y = 0 \<and> x = 2 then 255 else 0) 2 0 0 = 195075
   \<and> (\<exists>grad. calc_energy \<lparr>raster = map Some [0,0,0, 0,0,0, 255,255,255,  0,0,0, 0,0,0, 0,0,0],
                        height = 2, width = 3\<rparr> = Some grad
          \<and> get_pixel grad 0 0 0 = Some 44 \<and> get_pixel grad 0 0 1 = Some 44
          \<and> get_pixel grad 0 0 2 = Some 44)
   \<and> (\<exists>em. calc_energy_wasm (map Some [0,0,0,255, 0,0,0,255, 255,255,255,255,
                                      0,0,0,255, 0,0,0,255, 0,0,0,255]) (malloc 24) 2 3 = Some em
          \<and> get_pixel_wasm em 3 0 0 0 = Some 44 \<and> get_pixel_wasm em 3 0 0 1 = Some 44
          \<and> get_pixel_wasm em 3 0 0 2 = Some 44)"
proof -
  let ?im = "\<lparr>raster = map Some [0,0,0, 0,0,0, 255,255,255,  0,0,0, 0,0,0, 0,0,0], height = 2, width = 3\<rparr>"
  let ?src = "map Some [0,0,0,255, 0,0,0,255, 255,255,255,255,  0,0,0,255, 0,0,0,255, 0,0,0,255] :: 8 word buffer"
  let ?P = "\<lambda>(y :: int) (x :: int) (c :: int). if y = 0 \<and> x = 2 then 255 else 0 :: 8 word"
  have a: "wf_img ?im" by (simp add: wf_img_def sized_def)
  have b: "wf_rgba ?src 2 3" by (simp add: wf_rgba_def)
  have c: "int (length (malloc 24 :: 8 word buffer)) = 4 * 2 * 3" by (simp add: malloc_def)
  have cases: "(y = 0 \<or> y = 1) \<and> (x = 0 \<or> x = 1 \<or> x = 2) \<and> (k = 0 \<or> k = 1 \<or> k = 2)"
    if "0 \<le> y \<and> y < 2 \<and> 0 \<le> x \<and> x < 3 \<and> 0 \<le> k \<and> k < 3" for y x k :: int
    using that by linarith
  have p: "\<forall>y x c. 0 \<le> y \<and> y < height ?im \<and> 0 \<le> x \<and> x < width ?im \<and> 0 \<le> c \<and> c < 3 \<longrightarrow>
             get_pixel ?im y x c = Some (?P y x c)"
  proof (intro allI impI)
    fix y x k :: int
    assume "0 \<le> y \<and> y < height ?im \<and> 0 \<le> x \<and> x < width ?im \<and> 0 \<le> k \<and> k < 3"
    then have "(y = 0 \<or> y = 1) \<and> (x = 0 \<or> x = 1 \<or> x = 2) \<and> (k = 0 \<or> k = 1 \<or> k = 2)"
      using cases [of y x k] by simp
    then show "get_pixel ?im y x k = Some (?P y x k)"
      by (auto simp: get_pixel_def arr_get_def)
  qed
  have q: "\<forall>y x c. 0 \<le> y \<and> y < 2 \<and> 0 \<le> x \<and> x < 3 \<and> 0 \<le> c \<and> c < 3 \<longrightarrow>
             get_pixel_wasm ?src 3 y x c = Some (?P y x c)"
  proof (intro allI impI)
    fix y x k :: int
    assume "0 \<le> y \<and> y < 2 \<and> 0 \<le> x \<and> x < 3 \<and> 0 \<le> k \<and> k < 3"
    then have "(y = 0 \<or> y = 1) \<and> (x = 0 \<or> x = 1 \<or> x = 2) \<and> (k = 0 \<or> k = 1 \<or> k = 2)"
      by (rule cases)
    then show "get_pixel_wasm ?src 3 y x k = Some (?P y x k)"
      by (auto simp: get_pixel_wasm_def arr_get_def)
  qed
  have s: "spec_gradX2 ?P 3 0 0 + spec_gradY2 ?P 2 0 0 = 195075"
    by (simp add: spec_gradX2_def spec_gradY2_def spec_left_def spec_right_def spec_up_def
        spec_down_def)
  have r: "sqrt_c 195075 = 441" by code_simp
  have f: "\<lfloor>real_of_int \<lfloor>sqrt (real_of_int 195075)\<rfloor> / 10\<rfloor> mod 256 = 44"
    using floor_sqrt_div [of 195075] r by simp
  have e: "v = 44" if "uint v = 44" for v :: "8 word"
    using that by (metis word_of_int_uint word_of_int_numeral)
  from energy_stored_truncated [OF a _ _ _ _ p b c _ _ _ _ q, of 0 0 0 0]
  obtain grad v em v' where
    g: "calc_energy ?im = Some grad"
      "uint v = \<lfloor>real_of_int \<lfloor>sqrt (real_of_int (spec_gradX2 ?P 3 0 0 + spec_gradY2 ?P 2 0 0))\<rfloor> / 10\<rfloor> mod 256"
      "get_pixel grad 0 0 0 = Some v" "get_pixel grad 0 0 1 = Some v" "get_pixel grad 0 0 2 = Some v"
    and m: "calc_energy_wasm ?src (malloc 24) 2 3 = Some em"
      "uint v' = \<lfloor>real_of_int \<lfloor>sqrt (real_of_int (spec_gradX2 ?P 3 0 0 + spec_gradY2 ?P 2 0 0))\<rfloor> / 10\<rfloor> mod 256"
      "get_pixel_wasm em 3 0 0 0 = Some v'" "get_pixel_wasm em 3 0 0 1 = Some v'"
      "get_pixel_wasm em 3 0 0 2 = Some v'"
    by auto
  have "v = 44" "v' = 44" using g(2) m(2) f e unfolding s by auto
  with g m s show ?thesis by blast
qed

section \<open>\<^verbatim>\<open>remove_seam\<close>\<close>

lemma remove_seam_correct:
  assumes wf: "wf_img src" and w1: "1 \<le> width src"
    and pth: "\<And>j. 0 \<le> j \<Longrightarrow> j < height src \<Longrightarrow> \<exists>p. arr_get pth j = Some p \<and> 0 \<le> p \<and> p < width src"
  shows "\<exists>dest. remove_seam src pth = Some dest \<and> sized dest
           \<and> height dest = height src \<and> width dest = width src - 1
           \<and> (\<forall>y x c p. 0 \<le> y \<and> y < height src \<and> 0 \<le> x \<and> x < width src - 1 \<and> 0 \<le> c \<and> c < 3
                  \<and> arr_get pth y = Some p \<longrightarrow>
                 get_pixel dest y x c = get_pixel src y (if x < p then x else x + 1) c)"
proof -
  define H W where "H = height src" and "W = width src"
  have sz: "sized src" and nn: "None \<notin> set (raster src)" using wf by (auto simp: wf_img_def)
  have hw: "0 \<le> H" "0 \<le> W" "0 \<le> W - 1" using sz w1 by (auto simp: sized_def H_def W_def)
  define I where "I = (\<lambda>j i d. sized d \<and> height d = H \<and> width d = W - 1
      \<and> (\<forall>y x c p. 0 \<le> y \<and> 0 \<le> x \<and> x < W - 1 \<and> 0 \<le> c \<and> c < 3 \<and> arr_get pth y = Some p
              \<and> (y < j \<or> (y = j \<and> (if x < p then x else x + 1) < i)) \<longrightarrow>
            get_pixel d y x c = get_pixel src y (if x < p then x else x + 1) c))"
  define body where "body = (\<lambda>j i dest. do {
         pj \<leftarrow> arr_get pth j;
         if i \<noteq> pj then do {
           R \<leftarrow> get_pixel src j i 0;
           G \<leftarrow> get_pixel src j i 1;
           B \<leftarrow> get_pixel src j i 2;
           if i < pj then set_pixel dest j i (uint R) (uint G) (uint B)
           else set_pixel dest j (i - 1) (uint R) (uint G) (uint B)
         }
         else Some dest
       })"
  have init: "I 0 0 (create_img H (W - 1))"
    using sized_create_img [OF hw(1) hw(3)] by (auto simp: I_def)
  have step: "\<exists>t'. body j i t = Some t' \<and> I j (i + 1) t'"
    if j: "0 \<le> j" "j < H" and i: "0 \<le> i" "i < W" and t: "I j i t" for j i t
  proof -
    from pth [of j] j obtain pj where pj: "arr_get pth j = Some pj" "0 \<le> pj" "pj < W"
      by (auto simp: H_def W_def)
    have tsz: "sized t" "height t = H" "width t = W - 1" using t by (auto simp: I_def)
    have told: "get_pixel t y x c = get_pixel src y (if x < p then x else x + 1) c"
      if "0 \<le> y" "0 \<le> x" "x < W - 1" "0 \<le> c" "c < 3" "arr_get pth y = Some p"
         "y < j \<or> (y = j \<and> (if x < p then x else x + 1) < i)" for y x c p
      using t that unfolding I_def by blast
    show ?thesis
    proof (cases "i = pj")
      case True
      have "get_pixel t y x c = get_pixel src y (if x < p then x else x + 1) c"
        if r: "0 \<le> y" "0 \<le> x" "x < W - 1" "0 \<le> c" "c < 3" "arr_get pth y = Some p"
           "y < j \<or> (y = j \<and> (if x < p then x else x + 1) < i + 1)" for y x c p
      proof -
        have "y < j \<or> (y = j \<and> (if x < p then x else x + 1) < i)"
          using r(6,7) pj(1) True by (auto split: if_splits)
        then show ?thesis using told [OF r(1-6)] by blast
      qed
      then have "I j (i + 1) t" using tsz unfolding I_def by blast
      moreover have "body j i t = Some t" using pj True by (simp add: body_def)
      ultimately show ?thesis by blast
    next
      case False
      define xn where "xn = (if i < pj then i else i - 1)"
      have xn: "0 \<le> xn" "xn < W - 1" "(if xn < pj then xn else xn + 1) = i"
        using False i pj by (auto simp: xn_def)
      obtain R G B where rgb: "get_pixel src j i 0 = Some R" "get_pixel src j i 1 = Some G"
          "get_pixel src j i 2 = Some B"
        using get_pixel_ok [OF sz nn, of j i 0] get_pixel_ok [OF sz nn, of j i 1]
          get_pixel_ok [OF sz nn, of j i 2] j i by (auto simp: H_def W_def)
      from set_pixel_ok [OF tsz(1), of j xn "uint R" "uint G" "uint B"] j xn tsz
      obtain t' where t': "set_pixel t j xn (uint R) (uint G) (uint B) = Some t'" "sized t'"
          "height t' = H" "width t' = W - 1"
        and px: "\<And>y' x' c. 0 \<le> x' \<Longrightarrow> x' < W - 1 \<Longrightarrow> 0 \<le> c \<Longrightarrow> c < 3 \<Longrightarrow>
                 get_pixel t' y' x' c =
                   (if y' = j \<and> x' = xn
                    then Some (word_of_int (if c = 0 then uint R else if c = 1 then uint G else uint B))
                    else get_pixel t y' x' c)"
        by auto
      have bd: "body j i t = Some t'"
        using pj False rgb t' by (auto simp: body_def xn_def)
      have "get_pixel t' y x c = get_pixel src y (if x < p then x else x + 1) c"
        if r: "0 \<le> y" "0 \<le> x" "x < W - 1" "0 \<le> c" "c < 3" "arr_get pth y = Some p"
           "y < j \<or> (y = j \<and> (if x < p then x else x + 1) < i + 1)" for y x c p
      proof (cases "y = j \<and> x = xn")
        case True
        then have "p = pj" using r(6) pj(1) by simp
        have "c = 0 \<or> c = 1 \<or> c = 2" using r(4,5) by linarith
        then have "get_pixel t' y x c = get_pixel src j i c"
          using px [OF r(2-5), of y] True rgb by auto
        then show ?thesis using True xn(3) \<open>p = pj\<close> by auto
      next
        case ne: False
        have "y < j \<or> (y = j \<and> (if x < p then x else x + 1) < i)"
        proof (cases "y = j")
          case True
          then have "p = pj" using r(6) pj(1) by simp
          with True ne r(7) show ?thesis by (auto simp: xn_def split: if_splits)
        next
          case False
          then show ?thesis using r(7) by simp
        qed
        then have "get_pixel t y x c = get_pixel src y (if x < p then x else x + 1) c"
          using told [OF r(1-6)] by blast
        then show ?thesis using px [OF r(2-5), of y] ne by auto
      qed
      then have "I j (i + 1) t'" using t' unfolding I_def by blast
      with bd show ?thesis by blast
    qed
  qed
  have row: "I (j + 1) 0 t" if a: "0 \<le> j" "j < H" "I j W t" for j t
  proof -
    have "get_pixel t y x c = get_pixel src y (if x < p then x else x + 1) c"
      if r: "0 \<le> y" "0 \<le> x" "x < W - 1" "0 \<le> c" "c < 3" "arr_get pth y = Some p"
         "y < j + 1 \<or> (y = j + 1 \<and> (if x < p then x else x + 1) < 0)" for y x c p
    proof -
      from r have "y < j \<or> (y = j \<and> (if x < p then x else x + 1) < W)"
        by (auto split: if_splits)
      with a(3) r show ?thesis unfolding I_def by blast
    qed
    with a(3) show ?thesis unfolding I_def by blast
  qed
  from for_loop2_rule [where I = I and body = body, OF hw(1,2) init step row]
  obtain dest where g: "for_loop 0 H (\<lambda>j. for_loop 0 W (body j)) (create_img H (W - 1)) = Some dest"
      "I H 0 dest"
    by blast
  have "remove_seam src pth = Some dest"
    using g(1) by (simp add: remove_seam_def body_def H_def W_def)
  moreover have "get_pixel dest y x c = get_pixel src y (if x < p then x else x + 1) c"
    if "0 \<le> y" "y < H" "0 \<le> x" "x < W - 1" "0 \<le> c" "c < 3" "arr_get pth y = Some p" for y x c p
    using g(2) that unfolding I_def by blast
  ultimately show ?thesis using g(2) unfolding I_def H_def W_def by blast
qed

section \<open>The copy of \<^verbatim>\<open>seam_carve\<close>\<close>

lemma seam_carve_copy_correct:
  assumes wf: "wf_rgba src h w" and w1: "1 \<le> w"
    and pth: "\<And>j. 0 \<le> j \<Longrightarrow> j < h \<Longrightarrow> \<exists>p. arr_get pth j = Some p \<and> 0 \<le> p \<and> p < w"
  shows "\<exists>out. seam_carve_copy src pth h w = Some out \<and> int (length out) = 4 * h * (w - 1)
           \<and> (\<forall>y x c p. 0 \<le> y \<and> y < h \<and> 0 \<le> x \<and> x < w - 1 \<and> 0 \<le> c \<and> c < 4
                  \<and> arr_get pth y = Some p \<longrightarrow>
                 get_pixel_wasm out (w - 1) y x c = get_pixel_wasm src w y (if x < p then x else x + 1) c)"
proof -
  have hw: "0 \<le> h" "0 \<le> w" "0 \<le> w - 1" using wf w1 by (auto simp: wf_rgba_def)
  define P where "P = (\<lambda>j i (out :: 8 word buffer). int (length out) = 4 * h * (w - 1)
      \<and> (\<forall>y x c p. 0 \<le> y \<and> 0 \<le> x \<and> x < w - 1 \<and> 0 \<le> c \<and> c < 4 \<and> arr_get pth y = Some p
              \<and> (y < j \<or> (y = j \<and> (if x < p then x else x + 1) < i)) \<longrightarrow>
            get_pixel_wasm out (w - 1) y x c = get_pixel_wasm src w y (if x < p then x else x + 1) c))"
  define inner where "inner = (\<lambda>j i (output, new_col). do {
           pj \<leftarrow> arr_get pth j;
           if i \<noteq> pj then do {
             c0 \<leftarrow> get_pixel_wasm src w j i 0;
             c1 \<leftarrow> get_pixel_wasm src w j i 1;
             c2 \<leftarrow> get_pixel_wasm src w j i 2;
             c3 \<leftarrow> get_pixel_wasm src w j i 3;
             out \<leftarrow> set_pixel_wasm output (w - 1) j new_col
                      (uint c0) (uint c1) (uint c2) (uint c3);
             Some (out, new_col + 1)
           }
           else Some (output, new_col)
         })"
  define outer where "outer = (\<lambda>j (output :: 8 word buffer, new_col0 :: int). for_loop 0 w (inner j) (output, 0))"
  have step: "\<exists>t'. inner j i (out, nc) = Some t' \<and> P j (i + 1) (fst t')
                \<and> (\<forall>p. arr_get pth j = Some p \<longrightarrow> snd t' = (if i + 1 \<le> p then i + 1 else i))"
    if j: "0 \<le> j" "j < h" and i: "0 \<le> i" "i < w" and t: "P j i out"
      and ncv: "\<And>p. arr_get pth j = Some p \<Longrightarrow> nc = (if i \<le> p then i else i - 1)" for j i out nc
  proof -
    from pth [OF j] obtain pj where pj: "arr_get pth j = Some pj" "0 \<le> pj" "pj < w" by auto
    have tl: "int (length out) = 4 * h * (w - 1)" using t by (simp add: P_def)
    have told: "get_pixel_wasm out (w - 1) y x c = get_pixel_wasm src w y (if x < p then x else x + 1) c"
      if "0 \<le> y" "0 \<le> x" "x < w - 1" "0 \<le> c" "c < 4" "arr_get pth y = Some p"
         "y < j \<or> (y = j \<and> (if x < p then x else x + 1) < i)" for y x c p
      using t that unfolding P_def by blast
    show ?thesis
    proof (cases "i = pj")
      case True
      have "get_pixel_wasm out (w - 1) y x c = get_pixel_wasm src w y (if x < p then x else x + 1) c"
        if r: "0 \<le> y" "0 \<le> x" "x < w - 1" "0 \<le> c" "c < 4" "arr_get pth y = Some p"
           "y < j \<or> (y = j \<and> (if x < p then x else x + 1) < i + 1)" for y x c p
      proof -
        have "y < j \<or> (y = j \<and> (if x < p then x else x + 1) < i)"
          using r(6,7) pj(1) True by (auto split: if_splits)
        then show ?thesis using told [OF r(1-6)] by blast
      qed
      then have "P j (i + 1) out" using tl unfolding P_def by blast
      moreover have "inner j i (out, nc) = Some (out, nc)" using pj True by (simp add: inner_def)
      moreover have "nc = i" using ncv [OF pj(1)] True by simp
      ultimately show ?thesis using pj(1) True by auto
    next
      case False
      have xn: "0 \<le> nc" "nc < w - 1" "(if nc < pj then nc else nc + 1) = i"
        using False i pj ncv [OF pj(1)] by (auto split: if_splits)
      have g: "\<exists>v. get_pixel_wasm src w j i c = Some v" if "0 \<le> c" "c < 4" for c
        using get_pixel_wasm_ok [OF wf j i that] .
      from g [of 0] g [of 1] g [of 2] g [of 3]
      obtain c0 c1 c2 c3 where rgb: "get_pixel_wasm src w j i 0 = Some c0" "get_pixel_wasm src w j i 1 = Some c1"
          "get_pixel_wasm src w j i 2 = Some c2" "get_pixel_wasm src w j i 3 = Some c3"
        by auto
      from set_pixel_wasm_ok [OF tl j xn(1,2), of "uint c0" "uint c1" "uint c2" "uint c3"]
      obtain t' where t': "set_pixel_wasm out (w - 1) j nc (uint c0) (uint c1) (uint c2) (uint c3) = Some t'"
          "length t' = length out"
        and px: "\<And>y' x' c. 0 \<le> x' \<Longrightarrow> x' < w - 1 \<Longrightarrow> 0 \<le> c \<Longrightarrow> c < 4 \<Longrightarrow>
                 get_pixel_wasm t' (w - 1) y' x' c =
                   (if y' = j \<and> x' = nc
                    then Some (word_of_int (if c = 0 then uint c0 else if c = 1 then uint c1
                                 else if c = 2 then uint c2 else uint c3))
                    else get_pixel_wasm out (w - 1) y' x' c)"
        by auto
      have bd: "inner j i (out, nc) = Some (t', nc + 1)"
        using pj False rgb t' by (auto simp: inner_def)
      have "get_pixel_wasm t' (w - 1) y x c = get_pixel_wasm src w y (if x < p then x else x + 1) c"
        if r: "0 \<le> y" "0 \<le> x" "x < w - 1" "0 \<le> c" "c < 4" "arr_get pth y = Some p"
           "y < j \<or> (y = j \<and> (if x < p then x else x + 1) < i + 1)" for y x c p
      proof (cases "y = j \<and> x = nc")
        case True
        then have "p = pj" using r(6) pj(1) by simp
        have "c = 0 \<or> c = 1 \<or> c = 2 \<or> c = 3" using r(4,5) by linarith
        then have "get_pixel_wasm t' (w - 1) y x c = get_pixel_wasm src w j i c"
          using px [OF r(2-5), of y] True rgb by auto
        then show ?thesis using True xn(3) \<open>p = pj\<close> by auto
      next
        case ne: False
        have "y < j \<or> (y = j \<and> (if x < p then x else x + 1) < i)"
        proof (cases "y = j")
          case True
          then have "p = pj" using r(6) pj(1) by simp
          with True ne r(7) xn(3) show ?thesis by (auto split: if_splits)
        next
          case False
          then show ?thesis using r(7) by simp
        qed
        then have "get_pixel_wasm out (w - 1) y x c = get_pixel_wasm src w y (if x < p then x else x + 1) c"
          using told [OF r(1-6)] by blast
        then show ?thesis using px [OF r(2-5), of y] ne by auto
      qed
      then have "P j (i + 1) t'" using t' tl unfolding P_def by auto
      moreover have "nc + 1 = (if i + 1 \<le> pj then i + 1 else i)"
        using ncv [OF pj(1)] False by (auto split: if_splits)
      ultimately show ?thesis using bd pj(1) by auto
    qed
  qed
  have row_step: "\<exists>t'. outer j t = Some t' \<and> P (j + 1) 0 (fst t')"
    if j: "0 \<le> j" "j < h" and t: "P j 0 (fst t)" for j t
  proof -
    obtain out nc0 where tt: "t = (out, nc0)" by (cases t)
    define K where "K = (\<lambda>i (s :: 8 word buffer \<times> int). P j i (fst s)
        \<and> (\<forall>p. arr_get pth j = Some p \<longrightarrow> snd s = (if i \<le> p then i else i - 1)))"
    from pth [OF j] obtain pj where pj: "arr_get pth j = Some pj" "0 \<le> pj" "pj < w" by auto
    have k0: "K 0 (out, 0)" using t tt pj by (auto simp: K_def)
    have ks: "\<exists>s'. inner j i s = Some s' \<and> K (i + 1) s'" if "0 \<le> i" "i < w" "K i s" for i s
    proof -
      obtain o1 n1 where s: "s = (o1, n1)" by (cases s)
      from that(3) s have a: "P j i o1" and b: "\<And>p. arr_get pth j = Some p \<Longrightarrow> n1 = (if i \<le> p then i else i - 1)"
        by (auto simp: K_def)
      from step [OF j that(1,2) a b] s show ?thesis
        unfolding K_def by (auto simp: algebra_simps)
    qed
    from for_loop_rule [where I = K and body = "inner j", OF hw(2) k0 ks]
    obtain s' where s': "for_loop 0 w (inner j) (out, 0) = Some s'" "K w s'" by blast
    have pw: "P j w (fst s')" using s'(2) by (simp add: K_def)
    have "get_pixel_wasm (fst s') (w - 1) y x c = get_pixel_wasm src w y (if x < p then x else x + 1) c"
      if r: "0 \<le> y" "0 \<le> x" "x < w - 1" "0 \<le> c" "c < 4" "arr_get pth y = Some p"
         "y < j + 1 \<or> (y = j + 1 \<and> (if x < p then x else x + 1) < 0)" for y x c p
    proof -
      from r have "y < j \<or> (y = j \<and> (if x < p then x else x + 1) < w)"
        by (auto split: if_splits)
      with pw r show ?thesis unfolding P_def by blast
    qed
    with pw have "P (j + 1) 0 (fst s')" unfolding P_def by blast
    moreover have "outer j t = Some s'" using s'(1) tt by (simp add: outer_def)
    ultimately show ?thesis by blast
  qed
  have init: "P 0 0 (fst (malloc (h * (w - 1) * 4) :: 8 word buffer, 0 :: int))"
    using hw by (auto simp: P_def malloc_def)
  from for_loop_rule [where I = "\<lambda>j s. P j 0 (fst s)" and body = outer, OF hw(1) init row_step]
  obtain s' where s': "for_loop 0 h outer (malloc (h * (w - 1) * 4), 0) = Some s'" "P h 0 (fst s')"
    by blast
  have "seam_carve_copy src pth h w = Some (fst s')"
    using s'(1) by (cases s') (simp add: seam_carve_copy_def outer_def inner_def)
  moreover have "get_pixel_wasm (fst s') (w - 1) y x c = get_pixel_wasm src w y (if x < p then x else x + 1) c"
    if "0 \<le> y" "y < h" "0 \<le> x" "x < w - 1" "0 \<le> c" "c < 4" "arr_get pth y = Some p" for y x c p
    using s'(2) that unfolding P_def by blast
  ultimately show ?thesis using s'(2) unfolding P_def by blast
qed

section \<open>The cost table\<close>

lemma min_2_eq: "min_2 a b = min a b"
  by (simp add: min_2_def min_def)

lemma min_3_eq: "min_3 a b c = min (min a b) c"
  by (simp add: min_3_def min_2_eq Let_def min_def)

text \<open>
  The two nested loops of the dynamic program, for any body that stores the energy in
  row 0 and the energy plus the least cost over the predecessor set below it.
\<close>

lemma dp_table:
  fixes cell :: "int \<Rightarrow> int \<Rightarrow> int buffer \<Rightarrow> int buffer option"
    and first :: "int \<Rightarrow> int buffer \<Rightarrow> int buffer option"
    and E :: "int \<Rightarrow> int \<Rightarrow> int"
  assumes h: "1 \<le> h" and w: "1 \<le> w"
    and first: "\<And>i best. 0 \<le> i \<Longrightarrow> i < w \<Longrightarrow> first i best = arr_set best i (E 0 i)"
    and cell: "\<And>j i best prev. 1 \<le> j \<Longrightarrow> j < h \<Longrightarrow> 0 \<le> i \<Longrightarrow> i < w \<Longrightarrow>
                 int (length best) = h * w \<Longrightarrow>
                 (\<And>i'. 0 \<le> i' \<Longrightarrow> i' < w \<Longrightarrow> arr_get best ((j - 1) * w + i') = Some (prev i')) \<Longrightarrow>
                 cell j i best = arr_set best (j * w + i)
                                   (E j i + Min (prev ` ({i - 1, i, i + 1} \<inter> {0..w - 1})))"
  shows "\<exists>best. (do { b \<leftarrow> for_loop 0 w first (malloc (h * w));
                      for_loop 1 h (\<lambda>j. for_loop 0 w (cell j)) b }) = Some best
           \<and> int (length best) = h * w
           \<and> (\<forall>j i. 0 \<le> j \<and> j < h \<and> 0 \<le> i \<and> i < w \<longrightarrow>
                 arr_get best (j * w + i) = Some (spec_cost E w (nat j) i))"
proof -
  have hw: "0 \<le> h * w" using h w by simp
  define I where "I = (\<lambda>j i (b :: int buffer). int (length b) = h * w
      \<and> (\<forall>y x. 0 \<le> y \<and> 0 \<le> x \<and> x < w \<and> (y < j \<or> (y = j \<and> x < i)) \<longrightarrow>
            arr_get b (y * w + x) = Some (spec_cost E w (nat y) x)))"
  have store: "\<exists>b'. arr_set b (j * w + i) v = Some b' \<and> I j (i + 1) b'"
    if j: "0 \<le> j" "j < h" and i: "0 \<le> i" "i < w" and b: "I j i b"
      and v: "v = spec_cost E w (nat j) i" for j i b v
  proof -
    have len: "int (length b) = h * w" using b by (simp add: I_def)
    from cell_index_bounds [OF j i] len
    obtain b' where b': "arr_set b (j * w + i) v = Some b'"
      using arr_set_ok [of "j * w + i" b v] by auto
    have "arr_get b' (y * w + x) = Some (spec_cost E w (nat y) x)"
      if r: "0 \<le> y" "0 \<le> x" "x < w" "y < j \<or> (y = j \<and> x < i + 1)" for y x
    proof (cases "y = j \<and> x = i")
      case True
      then show ?thesis using arr_get_set [OF b'] v by simp
    next
      case False
      then have "y * w + x \<noteq> j * w + i" using cell_index_inj [OF r(2,3) i] by blast
      moreover have "y < j \<or> (y = j \<and> x < i)" using False r(4) by auto
      then have "arr_get b (y * w + x) = Some (spec_cost E w (nat y) x)"
        using b r unfolding I_def by blast
      ultimately show ?thesis using arr_get_set [OF b'] by simp
    qed
    then have "I j (i + 1) b'" using len arr_set_length [OF b'] unfolding I_def by auto
    with b' show ?thesis by blast
  qed
  have init: "I 0 0 (malloc (h * w))"
    using hw by (auto simp: I_def malloc_def)
  have "\<exists>b. for_loop 0 w first (malloc (h * w)) = Some b \<and> I 0 w b"
  proof (rule for_loop_rule [where I = "I 0"])
    show "0 \<le> w" using w by simp
    show "I 0 0 (malloc (h * w))" by (rule init)
    fix k t assume k: "0 \<le> k" "k < w" and t: "I 0 k t"
    from store [of 0 k t "E 0 k"] h k t
    have "\<exists>b'. arr_set t k (E 0 k) = Some b' \<and> I 0 (k + 1) b'" by simp
    then show "\<exists>t'. first k t = Some t' \<and> I 0 (k + 1) t'"
      using first [OF k] by simp
  qed
  then obtain b0 where b0: "for_loop 0 w first (malloc (h * w)) = Some b0" "I 0 w b0" by blast
  have row: "I (j + 1) 0 t" if a: "I j w t" for j t
  proof -
    have "arr_get t (y * w + x) = Some (spec_cost E w (nat y) x)"
      if r: "0 \<le> y" "0 \<le> x" "x < w" "y < j + 1 \<or> (y = j + 1 \<and> x < 0)" for y x
    proof -
      from r have "y < j \<or> (y = j \<and> x < w)" by linarith
      with a r show ?thesis unfolding I_def by blast
    qed
    with a show ?thesis unfolding I_def by blast
  qed
  have i1: "I 1 0 b0" using row [OF b0(2)] by simp
  have step: "\<exists>t'. cell j i t = Some t' \<and> I j (i + 1) t'"
    if j: "1 \<le> j" "j < h" and i: "0 \<le> i" "i < w" and t: "I j i t" for j i t
  proof -
    have len: "int (length t) = h * w" using t by (simp add: I_def)
    have prev: "arr_get t ((j - 1) * w + i') = Some (spec_cost E w (nat (j - 1)) i')"
      if "0 \<le> i'" "i' < w" for i'
      using t that j unfolding I_def by auto
    have nj: "nat j = Suc (nat (j - 1))" using j by linarith
    have "spec_cost E w (nat j) i
            = E j i + Min (spec_cost E w (nat (j - 1)) ` ({i - 1, i, i + 1} \<inter> {0..w - 1}))"
      unfolding nj using j by simp
    with store [of j i t "spec_cost E w (nat j) i"] j i t
      cell [OF j i len prev]
    show ?thesis by simp
  qed
  from for_loop2_rule_from [where I = I and body = cell and lo = 1 and h = h and w = w, OF h _ i1 step]
    row w
  obtain best where best: "for_loop 1 h (\<lambda>j. for_loop 0 w (cell j)) b0 = Some best" "I h 0 best"
    by auto
  have "arr_get best (j * w + i) = Some (spec_cost E w (nat j) i)"
    if "0 \<le> j" "j < h" "0 \<le> i" "i < w" for j i
    using best(2) that unfolding I_def by blast
  then show ?thesis using b0(1) best unfolding I_def by auto
qed

text \<open>The three branches of the loop body, each the minimum over its predecessor set.\<close>

lemma Min_pred_left:
  assumes "2 \<le> w" shows "Min (prev ` ({0 - 1, 0, 0 + 1} \<inter> {0..w - 1})) = min (prev 1) (prev (0::int))"
proof -
  have "{0 - 1, 0, 0 + 1} \<inter> {0..w - 1} = {0, 1 :: int}" using assms by auto
  then show ?thesis by (simp add: min.commute)
qed

lemma Min_pred_right:
  assumes "2 \<le> w"
  shows "Min (prev ` ({w - 1 - 1, w - 1, w - 1 + 1} \<inter> {0..w - 1})) = min (prev (w - 1)) (prev (w - 2 :: int))"
proof -
  have "{w - 1 - 1, w - 1, w - 1 + 1} \<inter> {0..w - 1} = {w - 2, w - 1 :: int}" using assms by auto
  then show ?thesis by (simp add: min.commute)
qed

lemma Min_pred_mid:
  assumes "0 < i" "i < w - 1"
  shows "Min (prev ` ({i - 1, i, i + 1} \<inter> {0..w - 1})) = min (min (prev (i - 1)) (prev i)) (prev (i + 1 :: int))"
proof -
  have "{i - 1, i, i + 1} \<inter> {0..w - 1} = {i - 1, i, i + 1 :: int}" using assms by auto
  then show ?thesis by (simp add: min.assoc)
qed


lemma dynamic_seam_cell_eq:
  assumes w: "2 \<le> width grad" and i: "0 \<le> i" "i < width grad"
    and p: "get_pixel grad j i 0 = Some p"
    and prev: "\<And>i'. 0 \<le> i' \<Longrightarrow> i' < width grad \<Longrightarrow>
                 arr_get best ((j - 1) * width grad + i') = Some (prev i')"
  shows "dynamic_seam_cell grad j i best
           = arr_set best (j * width grad + i)
               (uint p + Min (prev ` ({i - 1, i, i + 1} \<inter> {0..width grad - 1})))"
proof -
  consider "i = 0" | "i \<noteq> 0" "i = width grad - 1" | "0 < i" "i < width grad - 1"
    using i by linarith
  then show ?thesis
  proof cases
    case 1
    have e: "arr_get best ((j - 1) * width grad + (0 + 1)) = Some (prev 1)"
      "arr_get best ((j - 1) * width grad + 0) = Some (prev 0)"
      using prev [of 1] prev [of 0] w by auto
    show ?thesis
      unfolding dynamic_seam_cell_def 1 Min_pred_left [OF w]
      by (simp only: p [unfolded 1] e min_2_eq Option.bind.simps Let_def if_True simp_thms)
  next
    case 2
    have e: "arr_get best ((j - 1) * width grad + (width grad - 1)) = Some (prev (width grad - 1))"
      "arr_get best ((j - 1) * width grad + (width grad - 1 - 1)) = Some (prev (width grad - 2))"
      using prev [of "width grad - 1"] prev [of "width grad - 2"] w by auto
    have ne: "(width grad - 1 = 0) = False" using w by simp
    show ?thesis
      unfolding dynamic_seam_cell_def 2(2) Min_pred_right [OF w]
      by (simp only: p [unfolded 2(2)] e ne min_2_eq Option.bind.simps Let_def if_True if_False simp_thms)
  next
    case 3
    have e: "arr_get best ((j - 1) * width grad + (i - 1)) = Some (prev (i - 1))"
      "arr_get best ((j - 1) * width grad + i) = Some (prev i)"
      "arr_get best ((j - 1) * width grad + (i + 1)) = Some (prev (i + 1))"
      using prev [of "i - 1"] prev [of i] prev [of "i + 1"] 3 by auto
    have ne: "(i = 0) = False" "(i = width grad - 1) = False" using 3 by auto
    show ?thesis
      unfolding dynamic_seam_cell_def Min_pred_mid [OF 3]
      by (simp only: p e ne min_3_eq Option.bind.simps Let_def if_False)
  qed
qed

lemma seam_carve_cell_eq:
  assumes w: "2 \<le> w" and i: "0 \<le> i" "i < w"
    and p: "get_pixel_wasm em w j i 0 = Some p"
    and prev: "\<And>i'. 0 \<le> i' \<Longrightarrow> i' < w \<Longrightarrow> arr_get best ((j - 1) * w + i') = Some (prev i')"
  shows "seam_carve_cell em w j i best
           = arr_set best (j * w + i) (uint p + Min (prev ` ({i - 1, i, i + 1} \<inter> {0..w - 1})))"
proof -
  consider "i = 0" | "i \<noteq> 0" "i = w - 1" | "0 < i" "i < w - 1"
    using i by linarith
  then show ?thesis
  proof cases
    case 1
    have e: "arr_get best ((j - 1) * w + 0 + 1) = Some (prev 1)"
      "arr_get best ((j - 1) * w + 0) = Some (prev 0)"
      using prev [of 1] prev [of 0] w by auto
    show ?thesis
      unfolding seam_carve_cell_def 1 Min_pred_left [OF w]
      by (simp only: p [unfolded 1] e min_2_eq Option.bind.simps Let_def if_True simp_thms)
  next
    case 2
    have e: "arr_get best ((j - 1) * w + (w - 1)) = Some (prev (w - 1))"
      "arr_get best ((j - 1) * w + (w - 1) - 1) = Some (prev (w - 2))"
      using prev [of "w - 1"] prev [of "w - 2"] w by (simp_all add: algebra_simps)
    have ne: "(w - 1 = 0) = False" using w by simp
    show ?thesis
      unfolding seam_carve_cell_def 2(2) Min_pred_right [OF w]
      by (simp only: p [unfolded 2(2)] e ne min_2_eq Option.bind.simps Let_def if_True if_False simp_thms)
  next
    case 3
    have e: "arr_get best ((j - 1) * w + i - 1) = Some (prev (i - 1))"
      "arr_get best ((j - 1) * w + i) = Some (prev i)"
      "arr_get best ((j - 1) * w + i + 1) = Some (prev (i + 1))"
      using prev [of "i - 1"] prev [of i] prev [of "i + 1"] 3 by (simp_all add: algebra_simps)
    have ne: "(i = 0) = False" "(i = w - 1) = False" using 3 by auto
    show ?thesis
      unfolding seam_carve_cell_def Min_pred_mid [OF 3]
      by (simp only: p e ne min_3_eq Option.bind.simps Let_def if_False)
  qed
qed

text \<open>
  For a width of at least 2 (or a single row) both dynamic programs fill the table of
  the spec.
\<close>

lemma dynamic_seam_correct:
  assumes wf: "wf_img grad" and h: "1 \<le> height grad" and w: "1 \<le> width grad"
    and hw: "height grad = 1 \<or> 2 \<le> width grad"
  shows "\<exists>best. dynamic_seam grad = Some best \<and> int (length best) = height grad * width grad
           \<and> (\<forall>j i. 0 \<le> j \<and> j < height grad \<and> 0 \<le> i \<and> i < width grad \<longrightarrow>
                 arr_get best (j * width grad + i)
                   = Some (spec_cost (\<lambda>j i. uint (the (get_pixel grad j i 0))) (width grad) (nat j) i))"
proof -
  define E where "E = (\<lambda>j i. uint (the (get_pixel grad j i 0)))"
  have sz: "sized grad" and nn: "None \<notin> set (raster grad)" using wf by (auto simp: wf_img_def)
  have px: "\<exists>p. get_pixel grad j i 0 = Some p" if "0 \<le> j" "j < height grad" "0 \<le> i" "i < width grad" for j i
    using get_pixel_ok [OF sz nn that] by simp
  have first: "(do { p \<leftarrow> get_pixel grad 0 i 0; arr_set best i (uint p) }) = arr_set best i (E 0 i)"
    if "0 \<le> i" "i < width grad" for i best
    using px [of 0 i] that h by (auto simp: E_def)
  have cell: "dynamic_seam_cell grad j i best = arr_set best (j * width grad + i)
                 (E j i + Min (prev ` ({i - 1, i, i + 1} \<inter> {0..width grad - 1})))"
    if j: "1 \<le> j" "j < height grad" and i: "0 \<le> i" "i < width grad"
      and "int (length best) = height grad * width grad"
      and prev: "\<And>i'. 0 \<le> i' \<Longrightarrow> i' < width grad \<Longrightarrow>
                 arr_get best ((j - 1) * width grad + i') = Some (prev i')" for j i best prev
  proof -
    from px [of j i] j i obtain p where p: "get_pixel grad j i 0 = Some p" by auto
    have w2: "2 \<le> width grad" using hw j by auto
    show ?thesis using dynamic_seam_cell_eq [OF w2 i p prev] p by (simp add: E_def)
  qed
  from dp_table [where cell = "dynamic_seam_cell grad"
      and first = "\<lambda>i best_arr. do { p \<leftarrow> get_pixel grad 0 i 0; arr_set best_arr i (uint p) }"
      and E = E, OF h w first cell]
  show ?thesis unfolding dynamic_seam_def E_def .
qed

lemma seam_carve_best_correct:
  assumes h: "1 \<le> h" and w: "1 \<le> w" and hw: "h = 1 \<or> 2 \<le> w"
    and px: "\<And>j i. 0 \<le> j \<Longrightarrow> j < h \<Longrightarrow> 0 \<le> i \<Longrightarrow> i < w \<Longrightarrow> \<exists>p. get_pixel_wasm em w j i 0 = Some p"
  shows "\<exists>best. seam_carve_best em h w = Some best \<and> int (length best) = h * w
           \<and> (\<forall>j i. 0 \<le> j \<and> j < h \<and> 0 \<le> i \<and> i < w \<longrightarrow>
                 arr_get best (j * w + i)
                   = Some (spec_cost (\<lambda>j i. uint (the (get_pixel_wasm em w j i 0))) w (nat j) i))"
proof -
  define E where "E = (\<lambda>j i. uint (the (get_pixel_wasm em w j i 0)))"
  have first: "(do { p \<leftarrow> get_pixel_wasm em w 0 i 0; arr_set best i (uint p) }) = arr_set best i (E 0 i)"
    if "0 \<le> i" "i < w" for i best
    using px [of 0 i] that h by (auto simp: E_def)
  have cell: "seam_carve_cell em w j i best = arr_set best (j * w + i)
                 (E j i + Min (prev ` ({i - 1, i, i + 1} \<inter> {0..w - 1})))"
    if j: "1 \<le> j" "j < h" and i: "0 \<le> i" "i < w"
      and "int (length best) = h * w"
      and prev: "\<And>i'. 0 \<le> i' \<Longrightarrow> i' < w \<Longrightarrow> arr_get best ((j - 1) * w + i') = Some (prev i')"
    for j i best prev
  proof -
    from px [of j i] j i obtain p where p: "get_pixel_wasm em w j i 0 = Some p" by auto
    have w2: "2 \<le> w" using hw j by auto
    show ?thesis using seam_carve_cell_eq [OF w2 i p prev] p by (simp add: E_def)
  qed
  from dp_table [where cell = "seam_carve_cell em w"
      and first = "\<lambda>i best_arr. do { p \<leftarrow> get_pixel_wasm em w 0 i 0; arr_set best_arr i (uint p) }"
      and E = E, OF h w first cell]
  show ?thesis unfolding seam_carve_best_def E_def .
qed

section \<open>The seam of \<^verbatim>\<open>seam_carve\<close>\<close>

lemma seam_carve_bottom_correct:
  assumes h: "1 \<le> h" and w: "1 \<le> w"
    and cells: "\<And>i. 0 \<le> i \<Longrightarrow> i < w \<Longrightarrow> arr_get best ((h - 1) * w + i) = Some (C i)"
  shows "\<exists>m p. seam_carve_bottom best h w = Some (m, p) \<and> 0 \<le> p \<and> p < w \<and> m = C p
           \<and> (\<forall>x. 0 \<le> x \<and> x < w \<longrightarrow> C p \<le> C x) \<and> (\<forall>x. 0 \<le> x \<and> x < p \<longrightarrow> C p < C x)"
proof -
  define K where "K = (\<lambda>i (s :: int \<times> int). 0 \<le> snd s \<and> snd s < i \<and> fst s = C (snd s)
      \<and> (\<forall>x. 0 \<le> x \<and> x < i \<longrightarrow> C (snd s) \<le> C x) \<and> (\<forall>x. 0 \<le> x \<and> x < snd s \<longrightarrow> C (snd s) < C x))"
  define body where "body = (\<lambda>i (min_energy, min_idx). do {
       b \<leftarrow> arr_get best ((h - 1) * w + i);
       if b < min_energy then Some (b, i) else Some (min_energy, min_idx)
     })"
  have m0: "arr_get best ((h - 1) * w) = Some (C 0)" using cells [of 0] w by simp
  have k1: "K 1 (C 0, 0)"
  proof -
    have "C 0 \<le> C x" if "0 \<le> x" "x < 1" for x
    proof -
      have "x = 0" using that by linarith
      then show ?thesis by simp
    qed
    then show ?thesis by (auto simp: K_def)
  qed
  have ks: "\<exists>s'. body i s = Some s' \<and> K (i + 1) s'" if i: "1 \<le> i" "i < w" and s: "K i s" for i s
  proof -
    obtain m p where mp: "s = (m, p)" by (cases s)
    have b: "arr_get best ((h - 1) * w + i) = Some (C i)" using cells [of i] i by simp
    from s mp have k: "0 \<le> p" "p < i" "m = C p" "\<And>x. 0 \<le> x \<Longrightarrow> x < i \<Longrightarrow> C p \<le> C x"
      "\<And>x. 0 \<le> x \<Longrightarrow> x < p \<Longrightarrow> C p < C x"
      by (auto simp: K_def)
    show ?thesis
    proof (cases "C i < m")
      case True
      have "C i \<le> C x" if "0 \<le> x" "x < i + 1" for x
        using k(4) [of x] that True k(3) by (cases "x = i") auto
      moreover have "C i < C x" if "0 \<le> x" "x < i" for x
        using k(4) [of x] that True k(3) by auto
      ultimately have "K (i + 1) (C i, i)" using i by (auto simp: K_def)
      moreover have "body i s = Some (C i, i)" using True b mp by (simp add: body_def)
      ultimately show ?thesis by blast
    next
      case False
      have "C p \<le> C x" if "0 \<le> x" "x < i + 1" for x
        using k(4) [of x] that False k(3) by (cases "x = i") auto
      then have "K (i + 1) (m, p)" using k by (auto simp: K_def)
      moreover have "body i s = Some (m, p)" using False b mp by (simp add: body_def)
      ultimately show ?thesis by blast
    qed
  qed
  from for_loop_rule [where I = K and body = body, OF w k1 ks]
  obtain s' where s': "for_loop 1 w body (C 0, 0) = Some s'" "K w s'" by blast
  obtain m p where mp: "s' = (m, p)" by (cases s')
  have "seam_carve_bottom best h w = Some (m, p)"
    using s'(1) m0 mp by (simp add: seam_carve_bottom_def body_def)
  then show ?thesis using s'(2) mp unfolding K_def by auto
qed

lemma seam_carve_back_correct:
  assumes w: "1 \<le> w"
    and c: "arr_get pth (j + 1) = Some c" "0 \<le> c" "c < w"
    and cells: "\<And>i. 0 \<le> i \<Longrightarrow> i < w \<Longrightarrow> arr_get best (j * w + i) = Some (C i)"
  shows "\<exists>p. seam_carve_back best w j pth = arr_set pth j p
           \<and> 0 \<le> p \<and> p < w \<and> c - 1 \<le> p \<and> p \<le> c + 1
           \<and> (\<forall>x. 0 \<le> x \<and> x < w \<and> c - 1 \<le> x \<and> x \<le> c + 1 \<longrightarrow> C p \<le> C x)
           \<and> ((\<forall>x. 0 \<le> x \<and> x < w \<and> c - 1 \<le> x \<and> x \<le> c + 1 \<longrightarrow> C c \<le> C x) \<longrightarrow> p = c)
           \<and> (0 < c \<and> C (c - 1) < C c
                \<and> (\<forall>x. 0 \<le> x \<and> x < w \<and> c - 1 \<le> x \<and> x \<le> c + 1 \<longrightarrow> C (c - 1) \<le> C x)
                 \<longrightarrow> p = c - 1)"
proof -
  have e1: "arr_get best (j * w + c) = Some (C c)" using cells [of c] c by simp
  have e2: "arr_get best (j * w + c - 1) = Some (C (c - 1))" if "0 < c"
    using cells [of "c - 1"] c that by (simp add: algebra_simps)
  have e3: "arr_get best (j * w + c + 1) = Some (C (c + 1))" if "c < w - 1"
    using cells [of "c + 1"] c that by (simp add: algebra_simps)
  define s1 where "s1 = (if 0 < c \<and> C (c - 1) < C c then (C (c - 1), c - 1) else (C c, c))"
  define s2 where "s2 = (if c < w - 1 \<and> C (c + 1) < fst s1 then (C (c + 1), c + 1) else s1)"
  define p where "p = snd s2"
  have three: "x = c - 1 \<or> x = c \<or> x = c + 1" if "c - 1 \<le> x" "x \<le> c + 1" for x
    using that by linarith
  have run: "seam_carve_back best w j pth = arr_set pth j p"
    using c(1) e1 e2 e3 by (auto simp: seam_carve_back_def s1_def s2_def p_def)
  have rng: "0 \<le> p" "p < w" "c - 1 \<le> p" "p \<le> c + 1"
    using c by (auto simp: s1_def s2_def p_def)
  have pc: "C p \<le> C c" by (auto simp: s1_def s2_def p_def)
  have pl: "C p \<le> C (c - 1)" if "0 < c" using that by (auto simp: s1_def s2_def p_def)
  have pr: "C p \<le> C (c + 1)" if "c < w - 1" using that by (auto simp: s1_def s2_def p_def)
  have least: "C p \<le> C x" if "0 \<le> x" "x < w" "c - 1 \<le> x" "x \<le> c + 1" for x
    using three [OF that(3,4)] pc pl pr that(1,2) by auto
  have centre: "p = c" if "\<And>x. 0 \<le> x \<Longrightarrow> x < w \<Longrightarrow> c - 1 \<le> x \<Longrightarrow> x \<le> c + 1 \<Longrightarrow> C c \<le> C x"
  proof -
    have "\<not> (0 < c \<and> C (c - 1) < C c)" using that [of "c - 1"] c by auto
    moreover have "\<not> (c < w - 1 \<and> C (c + 1) < C c)" using that [of "c + 1"] c by auto
    ultimately show ?thesis by (auto simp: s1_def s2_def p_def)
  qed
  have left: "p = c - 1" if "0 < c" "C (c - 1) < C c"
      "\<And>x. 0 \<le> x \<Longrightarrow> x < w \<Longrightarrow> c - 1 \<le> x \<Longrightarrow> x \<le> c + 1 \<Longrightarrow> C (c - 1) \<le> C x"
  proof -
    have "\<not> (c < w - 1 \<and> C (c + 1) < C (c - 1))" using that(3) [of "c + 1"] c by auto
    then show ?thesis using that(1,2) by (auto simp: s1_def s2_def p_def)
  qed
  show ?thesis
    using run rng least centre left by blast
qed

subsection \<open>The predicates of the spec, in arithmetic form\<close>

lemma candidates_iff: "x \<in> candidates w c \<longleftrightarrow> 0 \<le> x \<and> x < w \<and> c - 1 \<le> x \<and> x \<le> c + 1"
  by (auto simp: candidates_def)

lemma lowest_minI:
  assumes "0 \<le> p" "p < w" "\<And>x. 0 \<le> x \<Longrightarrow> x < w \<Longrightarrow> row p \<le> row x"
    "\<And>x. 0 \<le> x \<Longrightarrow> x < p \<Longrightarrow> row p < row x"
  shows "lowest_min row w p"
  using assms by (auto simp: lowest_min_def)

lemma local_minI:
  assumes "0 \<le> p" "p < w" "c - 1 \<le> p" "p \<le> c + 1"
    "\<And>x. 0 \<le> x \<Longrightarrow> x < w \<Longrightarrow> c - 1 \<le> x \<Longrightarrow> x \<le> c + 1 \<Longrightarrow> row p \<le> row x"
  shows "local_min row w c p"
  using assms by (auto simp: local_min_def candidates_iff)

lemma tie_breakI:
  assumes "(\<And>x. 0 \<le> x \<Longrightarrow> x < w \<Longrightarrow> c - 1 \<le> x \<Longrightarrow> x \<le> c + 1 \<Longrightarrow> row c \<le> row x) \<Longrightarrow> p = c"
    and "0 < c \<Longrightarrow> row (c - 1) < row c \<Longrightarrow>
         (\<And>x. 0 \<le> x \<Longrightarrow> x < w \<Longrightarrow> c - 1 \<le> x \<Longrightarrow> x \<le> c + 1 \<Longrightarrow> row (c - 1) \<le> row x) \<Longrightarrow> p = c - 1"
  shows "tie_break row w c p"
  unfolding tie_break_def
proof (intro conjI impI)
  assume "\<forall>x\<in>candidates w c. row c \<le> row x"
  then show "p = c" using assms(1) by (auto simp: candidates_iff)
next
  assume a: "c - 1 \<in> candidates w c \<and> row (c - 1) < row c \<and> (\<forall>x\<in>candidates w c. row (c - 1) \<le> row x)"
  then have "0 < c" by (auto simp: candidates_iff)
  moreover have "row (c - 1) \<le> row x" if "0 \<le> x" "x < w" "c - 1 \<le> x" "x \<le> c + 1" for x
    using a that by (auto simp: candidates_iff)
  ultimately show "p = c - 1" using assms(2) a by blast
qed

lemma filled_buffer:
  assumes "\<And>j. 0 \<le> j \<Longrightarrow> j < int (length pth) \<Longrightarrow> \<exists>p. arr_get pth j = Some p"
  shows "pth = map Some (map the pth)"
proof (rule nth_equalityI)
  show "length pth = length (map Some (map the pth))" by simp
next
  fix i assume i: "i < length pth"
  from assms [of "int i"] i obtain p where "arr_get pth (int i) = Some p" by auto
  then have "pth ! i = Some p" using i by (simp add: arr_get_def)
  then show "pth ! i = map Some (map the pth) ! i" using i by simp
qed

lemma arr_get_map_Some:
  "0 \<le> j \<Longrightarrow> j < int (length ps) \<Longrightarrow> arr_get (map Some ps) j = Some (ps ! nat j)"
  by (simp add: arr_get_def)

subsection \<open>The seam of \<^verbatim>\<open>seam_carve\<close> is locally minimal and breaks ties as documented\<close>

lemma seam_carve_path_correct:
  assumes h: "1 \<le> h" and w: "1 \<le> w"
    and cells: "\<And>j i. 0 \<le> j \<Longrightarrow> j < h \<Longrightarrow> 0 \<le> i \<Longrightarrow> i < w \<Longrightarrow> \<exists>v. arr_get best (j * w + i) = Some v"
  shows "\<exists>ps. seam_carve_path best h w = Some (map Some ps) \<and> int (length ps) = h
           \<and> (\<forall>j. 0 \<le> j \<and> j < h \<longrightarrow> 0 \<le> ps ! nat j \<and> ps ! nat j < w)
           \<and> lowest_min (cost_at best w (h - 1)) w (ps ! nat (h - 1))
           \<and> (\<forall>j. 0 \<le> j \<and> j < h - 1 \<longrightarrow>
                 local_min (cost_at best w j) w (ps ! nat (j + 1)) (ps ! nat j)
                 \<and> tie_break (cost_at best w j) w (ps ! nat (j + 1)) (ps ! nat j))"
proof -
  define C where "C = cost_at best w"
  have cell: "arr_get best (j * w + i) = Some (C j i)" if "0 \<le> j" "j < h" "0 \<le> i" "i < w" for j i
    using cells [OF that] by (auto simp: C_def cost_at_def)
  from seam_carve_bottom_correct [of h w best "C (h - 1)"] h w cell [of "h - 1"]
  obtain m p0 where bot: "seam_carve_bottom best h w = Some (m, p0)" "0 \<le> p0" "p0 < w"
      "\<And>x. 0 \<le> x \<Longrightarrow> x < w \<Longrightarrow> C (h - 1) p0 \<le> C (h - 1) x"
      "\<And>x. 0 \<le> x \<Longrightarrow> x < p0 \<Longrightarrow> C (h - 1) p0 < C (h - 1) x"
    by auto
  have lm: "lowest_min (C (h - 1)) w p0"
    using bot(2-5) by (rule lowest_minI)
  obtain pth0 where pth0: "arr_set (malloc h) (h - 1) p0 = Some pth0"
    using arr_set_ok [of "h - 1" "malloc h" p0] h by (auto simp: malloc_def)
  have len0: "int (length pth0) = h" using arr_set_length [OF pth0] h by (simp add: malloc_def)
  define J where "J = (\<lambda>j (pth :: int buffer). int (length pth) = h
      \<and> arr_get pth (h - 1) = Some p0
      \<and> (\<forall>y. j < y \<and> y < h \<longrightarrow> (\<exists>p. arr_get pth y = Some p \<and> 0 \<le> p \<and> p < w))
      \<and> (\<forall>y. j < y \<and> y < h - 1 \<longrightarrow> (\<exists>c p. arr_get pth (y + 1) = Some c \<and> arr_get pth y = Some p
              \<and> local_min (C y) w c p \<and> tie_break (C y) w c p)))"
  have j0: "J (h - 2) pth0"
  proof -
    have a: "arr_get pth0 (h - 1) = Some p0" using arr_get_set [OF pth0, of "h - 1"] by simp
    have b: "\<exists>p. arr_get pth0 y = Some p \<and> 0 \<le> p \<and> p < w" if "h - 2 < y \<and> y < h" for y
    proof -
      have "y = h - 1" using that by linarith
      then show ?thesis using a bot(2,3) by simp
    qed
    have c: "\<exists>c p. arr_get pth0 (y + 1) = Some c \<and> arr_get pth0 y = Some p
              \<and> local_min (C y) w c p \<and> tie_break (C y) w c p" if "h - 2 < y \<and> y < h - 1" for y
      using that by linarith
    show ?thesis unfolding J_def using a len0 b c by blast
  qed
  have js: "\<exists>t'. seam_carve_back best w k t = Some t' \<and> J (k - 1) t'"
    if k: "0 \<le> k" "k \<le> h - 2" and t: "J k t" for k t
  proof -
    from t have len: "int (length t) = h" and last: "arr_get t (h - 1) = Some p0"
      and rng: "\<And>y. k < y \<Longrightarrow> y < h \<Longrightarrow> \<exists>p. arr_get t y = Some p \<and> 0 \<le> p \<and> p < w"
      and old: "\<And>y. k < y \<Longrightarrow> y < h - 1 \<Longrightarrow> \<exists>c p. arr_get t (y + 1) = Some c \<and> arr_get t y = Some p
              \<and> local_min (C y) w c p \<and> tie_break (C y) w c p"
      unfolding J_def by blast+
    from rng [of "k + 1"] k obtain c where c: "arr_get t (k + 1) = Some c" "0 \<le> c" "c < w" by auto
    have ck: "arr_get best (k * w + i) = Some (C k i)" if "0 \<le> i" "i < w" for i
      using cell [of k i] k that by simp
    from seam_carve_back_correct [OF w c ck]
    obtain p where p: "seam_carve_back best w k t = arr_set t k p"
        "0 \<le> p" "p < w" "c - 1 \<le> p" "p \<le> c + 1"
        "\<And>x. 0 \<le> x \<Longrightarrow> x < w \<Longrightarrow> c - 1 \<le> x \<Longrightarrow> x \<le> c + 1 \<Longrightarrow> C k p \<le> C k x"
        "(\<forall>x. 0 \<le> x \<and> x < w \<and> c - 1 \<le> x \<and> x \<le> c + 1 \<longrightarrow> C k c \<le> C k x) \<longrightarrow> p = c"
        "0 < c \<and> C k (c - 1) < C k c
           \<and> (\<forall>x. 0 \<le> x \<and> x < w \<and> c - 1 \<le> x \<and> x \<le> c + 1 \<longrightarrow> C k (c - 1) \<le> C k x) \<longrightarrow> p = c - 1"
      by blast
    have lmin: "local_min (C k) w c p" using p(2-6) by (rule local_minI)
    have tb: "tie_break (C k) w c p" using p(7,8) by (intro tie_breakI) blast+
    obtain t' where t': "arr_set t k p = Some t'"
      using arr_set_ok [of k t p] k len by auto
    have g: "arr_get t' y = (if y = k then Some p else arr_get t y)" for y
      using arr_get_set [OF t'] .
    have "J (k - 1) t'"
      unfolding J_def
    proof (intro conjI allI impI)
      show "int (length t') = h" using arr_set_length [OF t'] len by simp
      show "arr_get t' (h - 1) = Some p0" using g [of "h - 1"] last k by simp
    next
      fix y assume y: "k - 1 < y \<and> y < h"
      show "\<exists>p. arr_get t' y = Some p \<and> 0 \<le> p \<and> p < w"
      proof (cases "y = k")
        case True
        then show ?thesis using g [of y] p(2,3) by simp
      next
        case False
        then show ?thesis using g [of y] rng [of y] y by simp
      qed
    next
      fix y assume y: "k - 1 < y \<and> y < h - 1"
      show "\<exists>c p. arr_get t' (y + 1) = Some c \<and> arr_get t' y = Some p
              \<and> local_min (C y) w c p \<and> tie_break (C y) w c p"
      proof (cases "y = k")
        case True
        then show ?thesis using g [of k] g [of "k + 1"] c(1) lmin tb by simp
      next
        case False
        then have "k < y" using y by simp
        then show ?thesis using g [of y] g [of "y + 1"] old [of y] y by simp
      qed
    qed
    with p(1) t' show ?thesis by simp
  qed
  have "- 1 \<le> h - 2" using h by simp
  from for_down_rule [where I = J and body = "seam_carve_back best w", OF this j0 js]
  obtain pth where pth: "for_down (h - 2) (seam_carve_back best w) pth0 = Some pth" "J (- 1) pth"
    by blast
  define ps where "ps = map the pth"
  from pth(2) have len: "int (length pth) = h" and last: "arr_get pth (h - 1) = Some p0"
    and rng: "\<And>y. 0 \<le> y \<Longrightarrow> y < h \<Longrightarrow> \<exists>p. arr_get pth y = Some p \<and> 0 \<le> p \<and> p < w"
    and steps: "\<And>y. 0 \<le> y \<Longrightarrow> y < h - 1 \<Longrightarrow> \<exists>c p. arr_get pth (y + 1) = Some c \<and> arr_get pth y = Some p
              \<and> local_min (C y) w c p \<and> tie_break (C y) w c p"
    unfolding J_def by auto
  have pm: "pth = map Some ps"
    unfolding ps_def using rng len by (intro filled_buffer) auto
  have lps: "int (length ps) = h" using len by (simp add: ps_def)
  have get: "arr_get pth y = Some (ps ! nat y)" if "0 \<le> y" "y < h" for y
    unfolding pm using that lps by (intro arr_get_map_Some) auto
  have run: "seam_carve_path best h w = Some (map Some ps)"
    using bot(1) pth0 pth(1) pm by (simp add: seam_carve_path_def)
  have r1: "0 \<le> ps ! nat j \<and> ps ! nat j < w" if "0 \<le> j" "j < h" for j
    using rng [OF that] get [OF that] by auto
  have r2: "lowest_min (C (h - 1)) w (ps ! nat (h - 1))"
    using lm last get [of "h - 1"] h by simp
  have r3: "local_min (C j) w (ps ! nat (j + 1)) (ps ! nat j)
      \<and> tie_break (C j) w (ps ! nat (j + 1)) (ps ! nat j)" if "0 \<le> j" "j < h - 1" for j
    using steps [OF that] get [of j] get [of "j + 1"] that by auto
  show ?thesis
    using run lps r1 r2 r3 unfolding C_def by blast
qed

section \<open>\<^verbatim>\<open>recover_path\<close>\<close>

text \<open>The scan of the bottom row: the first column of least cost, if some cost is below the sentinel.\<close>

lemma rp_bottom:
  assumes h: "1 \<le> h" and w: "1 \<le> w" and len: "int (length (path v0)) = h"
    and m0: "minv v0 = 10000000000000000"
    and cells: "\<And>i. 0 \<le> i \<Longrightarrow> i < w \<Longrightarrow> arr_get best ((h - 1) * w + i) = Some (C i)"
    and small: "\<And>i. 0 \<le> i \<Longrightarrow> i < w \<Longrightarrow> C i < 10000000000000000"
  shows "\<exists>v p0. for_loop 0 w (rp_step best h w (h - 1)) v0 = Some v
           \<and> int (length (path v)) = h \<and> x_cont v = Some p0 \<and> arr_get (path v) (h - 1) = Some p0
           \<and> (\<forall>y. y \<noteq> h - 1 \<longrightarrow> arr_get (path v) y = arr_get (path v0) y)
           \<and> lowest_min C w p0"
proof -
  define K where "K = (\<lambda>i (v :: rp_vars). int (length (path v)) = h
      \<and> (\<forall>y. y \<noteq> h - 1 \<longrightarrow> arr_get (path v) y = arr_get (path v0) y)
      \<and> (i = 0 \<longrightarrow> minv v = 10000000000000000)
      \<and> (0 < i \<longrightarrow> (\<exists>p. 0 \<le> p \<and> p < i \<and> x_cont v = Some p \<and> arr_get (path v) (h - 1) = Some p
             \<and> minv v = C p \<and> (\<forall>x. 0 \<le> x \<and> x < i \<longrightarrow> C p \<le> C x)
             \<and> (\<forall>x. 0 \<le> x \<and> x < p \<longrightarrow> C p < C x))))"
  have k0: "K 0 v0" using len m0 by (simp add: K_def)
  have ks: "\<exists>v'. rp_step best h w (h - 1) i v = Some v' \<and> K (i + 1) v'"
    if i: "0 \<le> i" "i < w" and v: "K i v" for i v
  proof -
    have b: "arr_get best ((h - 1) * w + i) = Some (C i)" using cells [OF i] .
    have lv: "int (length (path v)) = h"
      and keep: "\<And>y. y \<noteq> h - 1 \<Longrightarrow> arr_get (path v) y = arr_get (path v0) y"
      using v unfolding K_def by blast+
    obtain pth' where pth': "arr_set (path v) (h - 1) i = Some pth'"
      using arr_set_ok [of "h - 1" "path v" i] lv h by auto
    have g: "arr_get pth' y = (if y = h - 1 then Some i else arr_get (path v) y)" for y
      using arr_get_set [OF pth'] .
    have l': "int (length pth') = h" using arr_set_length [OF pth'] lv by simp
    show ?thesis
    proof (cases "C i < minv v")
      case True
      define v' where "v' = v\<lparr>path := pth', minv := C i, x_cont := Some i\<rparr>"
      have run: "rp_step best h w (h - 1) i v = Some v'"
        using b True pth' by (simp add: rp_step_def v'_def)
      have le: "C i \<le> C x" if "0 \<le> x" "x < i + 1" for x
      proof (cases "x = i")
        case True then show ?thesis by simp
      next
        case False
        then have xi: "x < i" "0 < i" using that by auto
        with v obtain p where "minv v = C p" "\<forall>x. 0 \<le> x \<and> x < i \<longrightarrow> C p \<le> C x"
          unfolding K_def by blast
        then show ?thesis using \<open>C i < minv v\<close> xi that(1) by fastforce
      qed
      have lt: "C i < C x" if "0 \<le> x" "x < i" for x
      proof -
        have "0 < i" using that by linarith
        with v obtain p where "minv v = C p" "\<forall>x. 0 \<le> x \<and> x < i \<longrightarrow> C p \<le> C x"
          unfolding K_def by blast
        then show ?thesis using \<open>C i < minv v\<close> that by fastforce
      qed
      have "K (i + 1) v'"
        unfolding K_def
      proof (intro conjI allI impI)
        show "int (length (path v')) = h" using l' by (simp add: v'_def)
        show "\<And>y. y \<noteq> h - 1 \<Longrightarrow> arr_get (path v') y = arr_get (path v0) y"
          using g keep by (simp add: v'_def)
        show "minv v' = 10000000000000000" if "i + 1 = 0" using that i by simp
        show "\<exists>p. 0 \<le> p \<and> p < i + 1 \<and> x_cont v' = Some p \<and> arr_get (path v') (h - 1) = Some p
             \<and> minv v' = C p \<and> (\<forall>x. 0 \<le> x \<and> x < i + 1 \<longrightarrow> C p \<le> C x)
             \<and> (\<forall>x. 0 \<le> x \<and> x < p \<longrightarrow> C p < C x)"
          using i g [of "h - 1"] le lt by (intro exI [of _ i]) (simp add: v'_def)
      qed
      with run show ?thesis by blast
    next
      case False
      have run: "rp_step best h w (h - 1) i v = Some v"
        using b False by (simp add: rp_step_def)
      have pos: "0 < i"
      proof (rule ccontr)
        assume "\<not> 0 < i"
        then have "i = 0" using i by simp
        then have "minv v = 10000000000000000" using v unfolding K_def by blast
        then show False using False small [OF i] by simp
      qed
      with v obtain p where p: "0 \<le> p" "p < i" "x_cont v = Some p" "arr_get (path v) (h - 1) = Some p"
          "minv v = C p" "\<And>x. 0 \<le> x \<Longrightarrow> x < i \<Longrightarrow> C p \<le> C x" "\<And>x. 0 \<le> x \<Longrightarrow> x < p \<Longrightarrow> C p < C x"
        unfolding K_def by blast
      have le: "C p \<le> C x" if "0 \<le> x" "x < i + 1" for x
        using p(6) [of x] that False p(5) by (cases "x = i") auto
      have "K (i + 1) v"
        unfolding K_def
      proof (intro conjI allI impI)
        show "int (length (path v)) = h" by (rule lv)
        show "\<And>y. y \<noteq> h - 1 \<Longrightarrow> arr_get (path v) y = arr_get (path v0) y" by (rule keep)
        show "minv v = 10000000000000000" if "i + 1 = 0" using that i by simp
        show "\<exists>p. 0 \<le> p \<and> p < i + 1 \<and> x_cont v = Some p \<and> arr_get (path v) (h - 1) = Some p
             \<and> minv v = C p \<and> (\<forall>x. 0 \<le> x \<and> x < i + 1 \<longrightarrow> C p \<le> C x)
             \<and> (\<forall>x. 0 \<le> x \<and> x < p \<longrightarrow> C p < C x)"
          using p le by (intro exI [of _ p]) auto
      qed
      with run show ?thesis by blast
    qed
  qed
  have w0: "0 \<le> w" using w by simp
  from for_loop_rule [where I = K and body = "rp_step best h w (h - 1)", OF w0 k0 ks]
  obtain v where v: "for_loop 0 w (rp_step best h w (h - 1)) v0 = Some v" "K w v" by blast
  from v(2) w obtain p where p: "0 \<le> p" "p < w" "x_cont v = Some p" "arr_get (path v) (h - 1) = Some p"
      "\<And>x. 0 \<le> x \<Longrightarrow> x < w \<Longrightarrow> C p \<le> C x" "\<And>x. 0 \<le> x \<Longrightarrow> x < p \<Longrightarrow> C p < C x"
    unfolding K_def by auto
  have "lowest_min C w p" using p(1,2,5,6) by (rule lowest_minI)
  then show ?thesis using v p(3,4) unfolding K_def by blast
qed

text \<open>One column of the scan of a row above the bottom: the neighbours of \<open>c\<close> seen so far.\<close>

lemma rp_record_step:
  fixes v :: rp_vars
  assumes xc: "x_cont v = Some c" and c: "0 \<le> c" "c < w" and i: "0 \<le> i" "i < w"
    and b: "C i < minv v"
    and e1: "e1_sum v = (if c < i then C c else 0)" "e1_i v = (if c < i then c else 0)"
    and e2: "e2_sum v = (if (if c = 0 then 1 else c - 1) < i then C (if c = 0 then 1 else c - 1) else 0)"
      "e2_i v = (if (if c = 0 then 1 else c - 1) < i then (if c = 0 then 1 else c - 1) else 0)"
    and e3: "e3_sum v = (if 0 < c \<and> c < w - 1 \<and> c + 1 < i then C (c + 1) else 0)"
      "e3_i v = (if 0 < c \<and> c < w - 1 \<and> c + 1 < i then c + 1 else 0)"
  shows "\<exists>v'. rp_record w i (C i) v = Some v' \<and> path v' = path v \<and> x_cont v' = Some c
      \<and> minv v' = minv v
      \<and> e1_sum v' = (if c < i + 1 then C c else 0) \<and> e1_i v' = (if c < i + 1 then c else 0)
      \<and> e2_sum v' = (if (if c = 0 then 1 else c - 1) < i + 1 then C (if c = 0 then 1 else c - 1) else 0)
      \<and> e2_i v' = (if (if c = 0 then 1 else c - 1) < i + 1 then (if c = 0 then 1 else c - 1) else 0)
      \<and> e3_sum v' = (if 0 < c \<and> c < w - 1 \<and> c + 1 < i + 1 then C (c + 1) else 0)
      \<and> e3_i v' = (if 0 < c \<and> c < w - 1 \<and> c + 1 < i + 1 then c + 1 else 0)"
proof -
  consider "c = 0" | "c \<noteq> 0" "c = w - 1" | "0 < c" "c < w - 1"
    using c by linarith
  then show ?thesis
  proof cases
    case 1
    consider "i = 0" | "i = 1" | "1 < i" using i by linarith
    then show ?thesis
      using 1 xc b e1 e2 e3 by cases (simp_all add: rp_record_def)
  next
    case 2
    consider "i = c" | "i = c - 1" | "i < c - 1" using i 2 by linarith
    then show ?thesis
      using 2 xc b e1 e2 e3 c by cases (simp_all add: rp_record_def)
  next
    case 3
    consider "i = c" | "i = c - 1" | "i = c + 1" | "i < c - 1" | "c + 1 < i" by linarith
    then show ?thesis
      using 3 xc b e1 e2 e3 by cases (simp_all add: rp_record_def)
  qed
qed

text \<open>The comparison at the last column stores \<open>rp_pick\<close>.\<close>

lemma rp_choose_pick:
  fixes v :: rp_vars
  assumes c: "0 \<le> c" "c < w" and j: "0 \<le> j" "j < int (length (path v))"
    and e1: "e1_sum v = C c" "e1_i v = c"
    and e2: "e2_sum v = (if (if c = 0 then 1 else c - 1) < w then C (if c = 0 then 1 else c - 1) else 0)"
      "e2_i v = (if (if c = 0 then 1 else c - 1) < w then (if c = 0 then 1 else c - 1) else 0)"
    and e3: "e3_sum v = (if 0 < c \<and> c < w - 1 then C (c + 1) else 0)"
      "e3_i v = (if 0 < c \<and> c < w - 1 then c + 1 else 0)"
  shows "\<exists>v'. rp_choose j v = Some v' \<and> path v' = (path v)[nat j := Some (rp_pick C w c)]
      \<and> x_cont v' = Some (rp_pick C w c)"
proof -
  have st: "arr_set (path v) j x = Some ((path v)[nat j := Some x])" for x
    using j by (simp add: arr_set_def)
  consider "c = 0" "1 < w" | "c = 0" "w = 1" | "c \<noteq> 0" "c = w - 1"
    | "0 < c" "c < w - 1" "C (c + 1) = 0" | "0 < c" "c < w - 1" "C (c + 1) \<noteq> 0"
    using c by linarith
  then show ?thesis
  proof cases
    case 1
    then show ?thesis using e1 e2 e3 by (simp add: rp_choose_def rp_pick_def st Let_def)
  next
    case 2
    then show ?thesis using e1 e2 e3 by (simp add: rp_choose_def rp_pick_def st Let_def)
  next
    case 3
    then show ?thesis using e1 e2 e3 c by (simp add: rp_choose_def rp_pick_def st Let_def)
  next
    case 4
    then show ?thesis using e1 e2 e3 by (simp add: rp_choose_def rp_pick_def st Let_def)
  next
    case 5
    then show ?thesis using e1 e2 e3 by (simp add: rp_choose_def rp_pick_def st Let_def)
  qed
qed

text \<open>A whole row above the bottom.\<close>

lemma rp_row:
  assumes j: "0 \<le> j" "j < h - 1" and w: "1 \<le> w" and len: "int (length p) = h"
    and c: "0 \<le> c" "c < w"
    and cells: "\<And>i. 0 \<le> i \<Longrightarrow> i < w \<Longrightarrow> arr_get best (j * w + i) = Some (C i)"
    and small: "\<And>i. 0 \<le> i \<Longrightarrow> i < w \<Longrightarrow> C i < 10000000000000000"
  shows "\<exists>v. for_loop 0 w (rp_step best h w j)
               \<lparr>path = p, x_cont = Some c, minv = 10000000000000000,
                e1_sum = 0, e2_sum = 0, e3_sum = 0, e1_i = 0, e2_i = 0, e3_i = 0\<rparr> = Some v
           \<and> path v = p[nat j := Some (rp_pick C w c)] \<and> x_cont v = Some (rp_pick C w c)"
proof -
  define c2 where "c2 = (if c = 0 then 1 else c - 1)"
  define R where "R = (\<lambda>i (v :: rp_vars). path v = p \<and> x_cont v = Some c \<and> minv v = 10000000000000000
      \<and> e1_sum v = (if c < i then C c else 0) \<and> e1_i v = (if c < i then c else 0)
      \<and> e2_sum v = (if c2 < i then C c2 else 0) \<and> e2_i v = (if c2 < i then c2 else 0)
      \<and> e3_sum v = (if 0 < c \<and> c < w - 1 \<and> c + 1 < i then C (c + 1) else 0)
      \<and> e3_i v = (if 0 < c \<and> c < w - 1 \<and> c + 1 < i then c + 1 else 0))"
  define Q where "Q = (\<lambda>v :: rp_vars. path v = p[nat j := Some (rp_pick C w c)] \<and> x_cont v = Some (rp_pick C w c))"
  define I where "I = (\<lambda>i v. if i < w then R i v else Q v)"
  let ?v0 = "\<lparr>path = p, x_cont = Some c, minv = 10000000000000000,
                e1_sum = 0, e2_sum = 0, e3_sum = 0, e1_i = 0, e2_i = 0, e3_i = 0\<rparr>"
  have c2pos: "0 \<le> c2" using c by (simp add: c2_def)
  have r0: "R 0 ?v0" using c c2pos by (simp add: R_def)
  then have i0: "I 0 ?v0" using w by (simp add: I_def)
  have step: "\<exists>v'. rp_step best h w j i v = Some v' \<and> I (i + 1) v'"
    if i: "0 \<le> i" "i < w" and v: "I i v" for i v
  proof -
    have r: "R i v" using v i by (simp add: I_def)
    have b: "arr_get best (j * w + i) = Some (C i)" using cells [OF i] .
    have lt: "C i < minv v" using r small [OF i] by (simp add: R_def)
    from r have f: "x_cont v = Some c" "path v = p" "minv v = 10000000000000000"
      "e1_sum v = (if c < i then C c else 0)" "e1_i v = (if c < i then c else 0)"
      "e2_sum v = (if (if c = 0 then 1 else c - 1) < i then C (if c = 0 then 1 else c - 1) else 0)"
      "e2_i v = (if (if c = 0 then 1 else c - 1) < i then (if c = 0 then 1 else c - 1) else 0)"
      "e3_sum v = (if 0 < c \<and> c < w - 1 \<and> c + 1 < i then C (c + 1) else 0)"
      "e3_i v = (if 0 < c \<and> c < w - 1 \<and> c + 1 < i then c + 1 else 0)"
      unfolding R_def c2_def by blast+
    from rp_record_step [OF f(1) c i lt f(4-9)]
    obtain v1 where v1: "rp_record w i (C i) v = Some v1" "path v1 = path v" "x_cont v1 = Some c"
      "minv v1 = minv v"
      "e1_sum v1 = (if c < i + 1 then C c else 0)" "e1_i v1 = (if c < i + 1 then c else 0)"
      "e2_sum v1 = (if (if c = 0 then 1 else c - 1) < i + 1 then C (if c = 0 then 1 else c - 1) else 0)"
      "e2_i v1 = (if (if c = 0 then 1 else c - 1) < i + 1 then (if c = 0 then 1 else c - 1) else 0)"
      "e3_sum v1 = (if 0 < c \<and> c < w - 1 \<and> c + 1 < i + 1 then C (c + 1) else 0)"
      "e3_i v1 = (if 0 < c \<and> c < w - 1 \<and> c + 1 < i + 1 then c + 1 else 0)"
      by blast
    have r1: "R (i + 1) v1" unfolding R_def c2_def using v1 f(2,3) by simp
    have jh: "(j = h - 1) = False" using j by simp
    show ?thesis
    proof (cases "i = w - 1")
      case True
      have e: "e1_sum v1 = C c" "e1_i v1 = c"
        "e2_sum v1 = (if (if c = 0 then 1 else c - 1) < w then C (if c = 0 then 1 else c - 1) else 0)"
        "e2_i v1 = (if (if c = 0 then 1 else c - 1) < w then (if c = 0 then 1 else c - 1) else 0)"
        "e3_sum v1 = (if 0 < c \<and> c < w - 1 then C (c + 1) else 0)"
        "e3_i v1 = (if 0 < c \<and> c < w - 1 then c + 1 else 0)"
        using v1(5-10) c True by simp_all
      have jl: "j < int (length (path v1))" using v1(2) f(2) len j by simp
      from rp_choose_pick [OF c j(1) jl e]
      obtain v2 where v2: "rp_choose j v1 = Some v2" "path v2 = (path v1)[nat j := Some (rp_pick C w c)]"
        "x_cont v2 = Some (rp_pick C w c)" by blast
      have "rp_step best h w j i v = Some v2"
        using b v1(1) v2(1) True jh by (simp add: rp_step_def)
      moreover have "I (i + 1) v2" using v2 v1(2) f(2) True by (simp add: I_def Q_def)
      ultimately show ?thesis by blast
    next
      case False
      then have "rp_step best h w j i v = Some v1"
        using b v1(1) jh by (simp add: rp_step_def)
      moreover have "I (i + 1) v1" using r1 False i by (simp add: I_def)
      ultimately show ?thesis by blast
    qed
  qed
  have w0: "0 \<le> w" using w by simp
  from for_loop_rule [where I = I and body = "rp_step best h w j", OF w0 i0 step]
  obtain v where "for_loop 0 w (rp_step best h w j) ?v0 = Some v" "I w v" by blast
  then show ?thesis by (auto simp: I_def Q_def)
qed

subsection \<open>\<^verbatim>\<open>recover_path\<close> computes \<open>rp_pick\<close> row by row\<close>

lemma rp_pick_range:
  assumes "0 \<le> c" "c < w"
  shows "0 \<le> rp_pick row w c" "rp_pick row w c < w"
    "c - 1 \<le> rp_pick row w c" "rp_pick row w c \<le> c + 1"
  using assms by (auto simp: rp_pick_def Let_def)

lemma rp_pick_tie_break:
  assumes c: "0 \<le> c" "c < w"
  shows "tie_break row w c (rp_pick row w c)"
proof (rule tie_breakI)
  assume a: "\<And>x. 0 \<le> x \<Longrightarrow> x < w \<Longrightarrow> c - 1 \<le> x \<Longrightarrow> x \<le> c + 1 \<Longrightarrow> row c \<le> row x"
  have l: "row c \<le> row (c - 1)" if "0 < c" using a [of "c - 1"] that c by simp
  have r: "row c \<le> row (c + 1)" if "c < w - 1" using a [of "c + 1"] that c by simp
  have r0: "row 0 \<le> row 1" if "c = 0" "1 < w" using a [of 1] that by simp
  show "rp_pick row w c = c"
    using l r r0 c by (auto simp: rp_pick_def Let_def min_3_eq min_2_eq min_def)
next
  assume p: "0 < c" and lt: "row (c - 1) < row c"
    and a: "\<And>x. 0 \<le> x \<Longrightarrow> x < w \<Longrightarrow> c - 1 \<le> x \<Longrightarrow> x \<le> c + 1 \<Longrightarrow> row (c - 1) \<le> row x"
  have r: "row (c - 1) \<le> row (c + 1)" if "c < w - 1" using a [of "c + 1"] that c by simp
  show "rp_pick row w c = c - 1"
    using p lt r by (auto simp: rp_pick_def Let_def min_3_eq min_2_eq min_def)
qed

lemma arr_get_update:
  "0 \<le> k \<Longrightarrow> k < int (length p) \<Longrightarrow>
     arr_get (p[nat k := Some x]) y = (if y = k then Some x else arr_get p y)"
  by (auto simp: arr_get_def nth_list_update)

lemma recover_path_correct:
  assumes h: "1 \<le> h" and w: "1 \<le> w"
    and cells: "\<And>j i. 0 \<le> j \<Longrightarrow> j < h \<Longrightarrow> 0 \<le> i \<Longrightarrow> i < w \<Longrightarrow>
                  \<exists>v. arr_get best (j * w + i) = Some v \<and> v < 10000000000000000"
  shows "\<exists>ps. recover_path best h w = Some (map Some ps) \<and> int (length ps) = h
           \<and> (\<forall>j. 0 \<le> j \<and> j < h \<longrightarrow> 0 \<le> ps ! nat j \<and> ps ! nat j < w)
           \<and> lowest_min (cost_at best w (h - 1)) w (ps ! nat (h - 1))
           \<and> (\<forall>j. 0 \<le> j \<and> j < h - 1 \<longrightarrow>
                 ps ! nat j = rp_pick (cost_at best w j) w (ps ! nat (j + 1)))"
proof -
  define C where "C = cost_at best w"
  have cell: "arr_get best (j * w + i) = Some (C j i)" and small: "C j i < 10000000000000000"
    if "0 \<le> j" "j < h" "0 \<le> i" "i < w" for j i
    using cells [OF that] by (auto simp: C_def cost_at_def)
  define body where "body = (\<lambda>j (p, xc). do {
         v \<leftarrow> for_loop 0 w (rp_step best h w j)
                \<lparr>path = p, x_cont = xc, minv = 10000000000000000,
                 e1_sum = 0, e2_sum = 0, e3_sum = 0, e1_i = 0, e2_i = 0, e3_i = 0\<rparr>;
         Some (path v, x_cont v)
       })"
  define J where "J = (\<lambda>j (s :: int buffer \<times> int option). int (length (fst s)) = h
      \<and> (j < h - 1 \<longrightarrow> (\<exists>c. snd s = Some c \<and> arr_get (fst s) (j + 1) = Some c))
      \<and> (j < h - 1 \<longrightarrow> (\<exists>p0. arr_get (fst s) (h - 1) = Some p0 \<and> lowest_min (C (h - 1)) w p0))
      \<and> (\<forall>y. j < y \<and> y < h \<longrightarrow> (\<exists>q. arr_get (fst s) y = Some q \<and> 0 \<le> q \<and> q < w))
      \<and> (\<forall>y. j < y \<and> y < h - 1 \<longrightarrow> (\<exists>c q. arr_get (fst s) (y + 1) = Some c \<and> arr_get (fst s) y = Some q
              \<and> q = rp_pick (C y) w c)))"
  have j0: "J (h - 1) (malloc h, None)"
    unfolding J_def
  proof (intro conjI allI impI)
    show "int (length (fst (malloc h :: int buffer, None :: int option))) = h"
      using h by (simp add: malloc_def)
  qed linarith+
  have js: "\<exists>t'. body k t = Some t' \<and> J (k - 1) t'"
    if k: "0 \<le> k" "k \<le> h - 1" and t: "J k t" for k t
  proof -
    obtain p xc where pt: "t = (p, xc)" by (cases t)
    have len: "int (length p) = h" using t pt by (simp add: J_def)
    let ?v0 = "\<lparr>path = p, x_cont = xc, minv = 10000000000000000,
                 e1_sum = 0, e2_sum = 0, e3_sum = 0, e1_i = 0, e2_i = 0, e3_i = 0\<rparr>"
    show ?thesis
    proof (cases "k = h - 1")
      case True
      have "\<exists>v p0. for_loop 0 w (rp_step best h w (h - 1)) ?v0 = Some v
           \<and> int (length (path v)) = h \<and> x_cont v = Some p0 \<and> arr_get (path v) (h - 1) = Some p0
           \<and> (\<forall>y. y \<noteq> h - 1 \<longrightarrow> arr_get (path v) y = arr_get (path ?v0) y)
           \<and> lowest_min (C (h - 1)) w p0"
        using h cell [of "h - 1"] small [of "h - 1"]
        by (intro rp_bottom [OF h w]) (simp_all add: len)
      then obtain v p0 where v: "for_loop 0 w (rp_step best h w (h - 1)) ?v0 = Some v"
          "int (length (path v)) = h" "x_cont v = Some p0" "arr_get (path v) (h - 1) = Some p0"
          "lowest_min (C (h - 1)) w p0"
        by blast
      have run: "body k t = Some (path v, x_cont v)"
        using v(1) True pt by (simp add: body_def)
      have p0: "0 \<le> p0" "p0 < w" using v(5) by (auto simp: lowest_min_def)
      have "J (k - 1) (path v, x_cont v)"
        unfolding J_def
      proof (intro conjI allI impI)
        show "int (length (fst (path v, x_cont v))) = h" using v(2) by simp
        show "\<exists>c. snd (path v, x_cont v) = Some c \<and> arr_get (fst (path v, x_cont v)) (k - 1 + 1) = Some c"
          using v(3,4) True by simp
        show "\<exists>p0. arr_get (fst (path v, x_cont v)) (h - 1) = Some p0 \<and> lowest_min (C (h - 1)) w p0"
          using v(4,5) by simp
      next
        fix y assume "k - 1 < y \<and> y < h"
        then have "y = h - 1" using True by linarith
        then show "\<exists>q. arr_get (fst (path v, x_cont v)) y = Some q \<and> 0 \<le> q \<and> q < w"
          using v(4) p0 by simp
      next
        fix y assume "k - 1 < y \<and> y < h - 1"
        then have False using True by linarith
        then show "\<exists>c q. arr_get (fst (path v, x_cont v)) (y + 1) = Some c
            \<and> arr_get (fst (path v, x_cont v)) y = Some q \<and> q = rp_pick (C y) w c" ..
      qed
      with run show ?thesis by blast
    next
      case False
      then have kh: "k < h - 1" using k by simp
      from t pt kh obtain c where c: "xc = Some c" "arr_get p (k + 1) = Some c"
        unfolding J_def by auto
      from t pt kh have rng: "\<And>y. k < y \<Longrightarrow> y < h \<Longrightarrow> \<exists>q. arr_get p y = Some q \<and> 0 \<le> q \<and> q < w"
        and last: "\<exists>p0. arr_get p (h - 1) = Some p0 \<and> lowest_min (C (h - 1)) w p0"
        and old: "\<And>y. k < y \<Longrightarrow> y < h - 1 \<Longrightarrow> \<exists>c q. arr_get p (y + 1) = Some c \<and> arr_get p y = Some q
              \<and> q = rp_pick (C y) w c"
        unfolding J_def by auto
      from rng [of "k + 1"] kh c(2) have cr: "0 \<le> c" "c < w" by auto
      define q where "q = rp_pick (C k) w c"
      have "\<exists>v. for_loop 0 w (rp_step best h w k)
               \<lparr>path = p, x_cont = Some c, minv = 10000000000000000,
                e1_sum = 0, e2_sum = 0, e3_sum = 0, e1_i = 0, e2_i = 0, e3_i = 0\<rparr> = Some v
           \<and> path v = p[nat k := Some (rp_pick (C k) w c)] \<and> x_cont v = Some (rp_pick (C k) w c)"
        using cell [of k] small [of k] k kh
        by (intro rp_row [OF k(1) kh w len cr]) simp_all
      then obtain v where v: "for_loop 0 w (rp_step best h w k) ?v0 = Some v"
          "path v = p[nat k := Some q]" "x_cont v = Some q"
        unfolding c(1) q_def by blast
      have run: "body k t = Some (path v, x_cont v)"
        using v(1) pt by (simp add: body_def)
      have g: "arr_get (path v) y = (if y = k then Some q else arr_get p y)" for y
        unfolding v(2) using k kh len by (intro arr_get_update) auto
      have qr: "0 \<le> q" "q < w" using rp_pick_range [OF cr] by (auto simp: q_def)
      have "J (k - 1) (path v, x_cont v)"
        unfolding J_def
      proof (intro conjI allI impI)
        show "int (length (fst (path v, x_cont v))) = h" using v(2) len by simp
        show "\<exists>c. snd (path v, x_cont v) = Some c \<and> arr_get (fst (path v, x_cont v)) (k - 1 + 1) = Some c"
          using v(3) g [of k] by simp
        show "\<exists>p0. arr_get (fst (path v, x_cont v)) (h - 1) = Some p0 \<and> lowest_min (C (h - 1)) w p0"
          using last g [of "h - 1"] kh by simp
      next
        fix y assume y: "k - 1 < y \<and> y < h"
        show "\<exists>q. arr_get (fst (path v, x_cont v)) y = Some q \<and> 0 \<le> q \<and> q < w"
        proof (cases "y = k")
          case True
          then show ?thesis using g [of y] qr by simp
        next
          case False
          then show ?thesis using g [of y] rng [of y] y by simp
        qed
      next
        fix y assume y: "k - 1 < y \<and> y < h - 1"
        show "\<exists>c q. arr_get (fst (path v, x_cont v)) (y + 1) = Some c
            \<and> arr_get (fst (path v, x_cont v)) y = Some q \<and> q = rp_pick (C y) w c"
        proof (cases "y = k")
          case True
          then show ?thesis using g [of k] g [of "k + 1"] c(2) by (simp add: q_def)
        next
          case False
          then have "k < y" using y by simp
          then show ?thesis using g [of y] g [of "y + 1"] old [of y] y by simp
        qed
      qed
      with run show ?thesis by blast
    qed
  qed
  have "- 1 \<le> h - 1" using h by simp
  from for_down_rule [where I = J and body = body, OF this j0 js]
  obtain s where s: "for_down (h - 1) body (malloc h, None) = Some s" "J (- 1) s"
    by blast
  obtain pth xc where sp: "s = (pth, xc)" by (cases s)
  define ps where "ps = map the pth"
  from s(2) sp h have len: "int (length pth) = h"
    and last: "\<exists>p0. arr_get pth (h - 1) = Some p0 \<and> lowest_min (C (h - 1)) w p0"
    and rng: "\<And>y. 0 \<le> y \<Longrightarrow> y < h \<Longrightarrow> \<exists>q. arr_get pth y = Some q \<and> 0 \<le> q \<and> q < w"
    and steps: "\<And>y. 0 \<le> y \<Longrightarrow> y < h - 1 \<Longrightarrow> \<exists>c q. arr_get pth (y + 1) = Some c \<and> arr_get pth y = Some q
              \<and> q = rp_pick (C y) w c"
    unfolding J_def by auto
  have pm: "pth = map Some ps"
    unfolding ps_def using rng len by (intro filled_buffer) auto
  have lps: "int (length ps) = h" using len by (simp add: ps_def)
  have get: "arr_get pth y = Some (ps ! nat y)" if "0 \<le> y" "y < h" for y
    unfolding pm using that lps by (intro arr_get_map_Some) auto
  have run: "recover_path best h w = Some (map Some ps)"
    using s(1) sp pm by (simp add: recover_path_def body_def)
  have r1: "0 \<le> ps ! nat j \<and> ps ! nat j < w" if "0 \<le> j" "j < h" for j
    using rng [OF that] get [OF that] by auto
  have r2: "lowest_min (C (h - 1)) w (ps ! nat (h - 1))"
    using last get [of "h - 1"] h by auto
  have r3: "ps ! nat j = rp_pick (C j) w (ps ! nat (j + 1))" if "0 \<le> j" "j < h - 1" for j
    using steps [OF that] get [of j] get [of "j + 1"] that by auto
  show ?thesis
    using run lps r1 r2 r3 unfolding C_def by blast
qed

text \<open>
  Where the choice of \<^verbatim>\<open>recover_path\<close> is a candidate of least cost and where it is not:
  it is one unless \<open>c\<close> is an inner column and the cost right of it is 0.
\<close>

lemma rp_pick_local_min:
  assumes c: "0 \<le> c" "c < w" and ok: "\<not> (0 < c \<and> c < w - 1 \<and> row (c + 1) = 0)"
  shows "local_min row w c (rp_pick row w c)"
proof (rule local_minI)
  show "0 \<le> rp_pick row w c" "rp_pick row w c < w" "c - 1 \<le> rp_pick row w c" "rp_pick row w c \<le> c + 1"
    using rp_pick_range [OF c] by auto
next
  fix x assume x: "0 \<le> x" "x < w" "c - 1 \<le> x" "x \<le> c + 1"
  then consider "x = c - 1" "0 < c" | "x = c" | "x = c + 1" "c < w - 1" by linarith
  then show "row (rp_pick row w c) \<le> row x"
    using ok c by cases (auto simp: rp_pick_def Let_def min_3_eq min_2_eq min_def)
qed

lemma rp_pick_not_local_min:
  assumes c: "0 < c" "c < w - 1" and z: "row (c + 1) = 0" and pos: "0 < row c" "0 < row (c - 1)"
  shows "\<not> local_min row w c (rp_pick row w c)"
proof
  assume "local_min row w c (rp_pick row w c)"
  then have "row (rp_pick row w c) \<le> row (c + 1)"
    using c by (auto simp: local_min_def candidates_iff)
  moreover have "rp_pick row w c = c \<or> rp_pick row w c = c - 1"
    using c z by (auto simp: rp_pick_def Let_def)
  ultimately show False using z pos by auto
qed

section \<open>The claims about the seam remover\<close>

text \<open>\<^verbatim>\<open>remove_seam\<close> reads the first \<open>height\<close> entries of the path and no other.\<close>

lemma for_loop_cong:
  assumes "\<And>k s. lo \<le> k \<Longrightarrow> k < hi \<Longrightarrow> body k s = body' k s"
  shows "lo \<le> i \<Longrightarrow> for_loop i hi body s = for_loop i hi body' s"
proof (induction "nat (hi - i)" arbitrary: i s)
  case 0
  then show ?case by (simp add: for_loop_done)
next
  case (Suc n)
  then have lt: "i < hi" by linarith
  have n: "n = nat (hi - (i + 1))" using Suc.hyps(2) by linarith
  have "for_loop (i + 1) hi body t = for_loop (i + 1) hi body' t" for t
    using Suc.hyps(1) [OF n] Suc.prems by simp
  then show ?case
    using lt assms [OF Suc.prems lt] by (simp add: for_loop_step split: option.split)
qed

lemma remove_seam_cong:
  assumes "\<And>j. 0 \<le> j \<Longrightarrow> j < height src \<Longrightarrow> arr_get pth j = arr_get pth' j"
  shows "remove_seam src pth = remove_seam src pth'"
  unfolding remove_seam_def
proof (rule for_loop_cong [OF _ order_refl])
  fix j and s :: rgb_img
  assume j: "0 \<le> j" "j < height src"
  show "for_loop 0 (width src) (\<lambda>i dest. do {
         pj \<leftarrow> arr_get pth j;
         if i \<noteq> pj then do {
           R \<leftarrow> get_pixel src j i 0;
           G \<leftarrow> get_pixel src j i 1;
           B \<leftarrow> get_pixel src j i 2;
           if i < pj then set_pixel dest j i (uint R) (uint G) (uint B)
           else set_pixel dest j (i - 1) (uint R) (uint G) (uint B)
         }
         else Some dest
       }) s = for_loop 0 (width src) (\<lambda>i dest. do {
         pj \<leftarrow> arr_get pth' j;
         if i \<noteq> pj then do {
           R \<leftarrow> get_pixel src j i 0;
           G \<leftarrow> get_pixel src j i 1;
           B \<leftarrow> get_pixel src j i 2;
           if i < pj then set_pixel dest j i (uint R) (uint G) (uint B)
           else set_pixel dest j (i - 1) (uint R) (uint G) (uint B)
         }
         else Some dest
       }) s"
    by (simp only: assms [OF j])
qed

lemma arr_get_take:
  "j < int n \<Longrightarrow> arr_get (take n pth) j = arr_get pth j"
  by (auto simp: arr_get_def)

text \<open>
  Claim C3. For a raster with \<open>H \<ge> 1\<close>, \<open>W \<ge> 2\<close> and a seam path of length \<open>H\<close> with
  every entry in \<open>[0, W - 1]\<close>, the seam remover returns a raster of height \<open>H\<close>, width
  \<open>W - 1\<close> and the same channel count, whose pixel \<open>(j, i)\<close> is the input pixel \<open>(j, i)\<close>
  for \<open>i < path[j]\<close> and the input pixel \<open>(j, i + 1)\<close> for \<open>i \<ge> path[j]\<close>. Stated for
  \<^verbatim>\<open>remove_seam\<close> and for the copy loop of \<^verbatim>\<open>seam_carve\<close>.
\<close>

theorem remove_seam_shifts:
  assumes "wf_img src" "1 \<le> height src" "2 \<le> width src" "int (length ps) = height src"
    and "\<forall>j. 0 \<le> j \<and> j < height src \<longrightarrow> 0 \<le> ps ! nat j \<and> ps ! nat j < width src"
    and "wf_rgba src' h w" "1 \<le> h" "2 \<le> w" "int (length ps') = h"
    and "\<forall>j. 0 \<le> j \<and> j < h \<longrightarrow> 0 \<le> ps' ! nat j \<and> ps' ! nat j < w"
  shows "(\<exists>dest. remove_seam src (map Some ps) = Some dest
            \<and> height dest = height src \<and> width dest = width src - 1
            \<and> int (length (raster dest)) = 3 * height src * (width src - 1)
            \<and> (\<forall>j i c. 0 \<le> j \<and> j < height src \<and> 0 \<le> i \<and> i < width src - 1 \<and> 0 \<le> c \<and> c < 3 \<longrightarrow>
                  (\<exists>v. get_pixel dest j i c = Some v
                      \<and> get_pixel src j (if i < ps ! nat j then i else i + 1) c = Some v)))
       \<and> (\<exists>out. seam_carve_copy src' (map Some ps') h w = Some out
            \<and> int (length out) = 4 * h * (w - 1)
            \<and> (\<forall>j i c. 0 \<le> j \<and> j < h \<and> 0 \<le> i \<and> i < w - 1 \<and> 0 \<le> c \<and> c < 4 \<longrightarrow>
                  (\<exists>v. get_pixel_wasm out (w - 1) j i c = Some v
                      \<and> get_pixel_wasm src' w j (if i < ps' ! nat j then i else i + 1) c = Some v)))"
proof
  have sz: "sized src" and nn: "None \<notin> set (raster src)" using assms(1) by (auto simp: wf_img_def)
  have g: "arr_get (map Some ps) j = Some (ps ! nat j)" if "0 \<le> j" "j < height src" for j
    using that assms(4) by (intro arr_get_map_Some) auto
  have pth: "\<exists>p. arr_get (map Some ps) j = Some p \<and> 0 \<le> p \<and> p < width src"
    if "0 \<le> j" "j < height src" for j
    using g [OF that] assms(5) that by auto
  have w1: "1 \<le> width src" using assms(3) by simp
  from remove_seam_correct [OF assms(1) w1 pth]
  obtain dest where d: "remove_seam src (map Some ps) = Some dest" "sized dest"
      "height dest = height src" "width dest = width src - 1"
    and px: "\<And>y x c p. 0 \<le> y \<Longrightarrow> y < height src \<Longrightarrow> 0 \<le> x \<Longrightarrow> x < width src - 1 \<Longrightarrow> 0 \<le> c \<Longrightarrow> c < 3
                  \<Longrightarrow> arr_get (map Some ps) y = Some p \<Longrightarrow>
                 get_pixel dest y x c = get_pixel src y (if x < p then x else x + 1) c"
    by blast
  have "\<exists>v. get_pixel dest j i c = Some v \<and> get_pixel src j (if i < ps ! nat j then i else i + 1) c = Some v"
    if r: "0 \<le> j" "j < height src" "0 \<le> i" "i < width src - 1" "0 \<le> c" "c < 3" for j i c
  proof -
    have "0 \<le> (if i < ps ! nat j then i else i + 1)" "(if i < ps ! nat j then i else i + 1) < width src"
      using r by auto
    from get_pixel_ok [OF sz nn r(1,2) this r(5,6)]
    obtain v where "get_pixel src j (if i < ps ! nat j then i else i + 1) c = Some v" by blast
    then show ?thesis using px [OF r g [OF r(1,2)]] by simp
  qed
  moreover have "int (length (raster dest)) = 3 * height src * (width src - 1)"
    using d(2-4) by (simp add: sized_def)
  ultimately show "\<exists>dest. remove_seam src (map Some ps) = Some dest
            \<and> height dest = height src \<and> width dest = width src - 1
            \<and> int (length (raster dest)) = 3 * height src * (width src - 1)
            \<and> (\<forall>j i c. 0 \<le> j \<and> j < height src \<and> 0 \<le> i \<and> i < width src - 1 \<and> 0 \<le> c \<and> c < 3 \<longrightarrow>
                  (\<exists>v. get_pixel dest j i c = Some v
                      \<and> get_pixel src j (if i < ps ! nat j then i else i + 1) c = Some v))"
    using d by blast
next
  have g: "arr_get (map Some ps') j = Some (ps' ! nat j)" if "0 \<le> j" "j < h" for j
    using that assms(9) by (intro arr_get_map_Some) auto
  have pth: "\<exists>p. arr_get (map Some ps') j = Some p \<and> 0 \<le> p \<and> p < w" if "0 \<le> j" "j < h" for j
    using g [OF that] assms(10) that by auto
  have w1: "1 \<le> w" using assms(8) by simp
  from seam_carve_copy_correct [OF assms(6) w1 pth]
  obtain out where d: "seam_carve_copy src' (map Some ps') h w = Some out"
      "int (length out) = 4 * h * (w - 1)"
    and px: "\<And>y x c p. 0 \<le> y \<Longrightarrow> y < h \<Longrightarrow> 0 \<le> x \<Longrightarrow> x < w - 1 \<Longrightarrow> 0 \<le> c \<Longrightarrow> c < 4
                  \<Longrightarrow> arr_get (map Some ps') y = Some p \<Longrightarrow>
                 get_pixel_wasm out (w - 1) y x c = get_pixel_wasm src' w y (if x < p then x else x + 1) c"
    by blast
  have "\<exists>v. get_pixel_wasm out (w - 1) j i c = Some v
           \<and> get_pixel_wasm src' w j (if i < ps' ! nat j then i else i + 1) c = Some v"
    if r: "0 \<le> j" "j < h" "0 \<le> i" "i < w - 1" "0 \<le> c" "c < 4" for j i c
  proof -
    have "0 \<le> (if i < ps' ! nat j then i else i + 1)" "(if i < ps' ! nat j then i else i + 1) < w"
      using r by auto
    from get_pixel_wasm_ok [OF assms(6) r(1,2) this r(5,6)]
    obtain v where "get_pixel_wasm src' w j (if i < ps' ! nat j then i else i + 1) c = Some v" by blast
    then show ?thesis using px [OF r g [OF r(1,2)]] by simp
  qed
  then show "\<exists>out. seam_carve_copy src' (map Some ps') h w = Some out
            \<and> int (length out) = 4 * h * (w - 1)
            \<and> (\<forall>j i c. 0 \<le> j \<and> j < h \<and> 0 \<le> i \<and> i < w - 1 \<and> 0 \<le> c \<and> c < 4 \<longrightarrow>
                  (\<exists>v. get_pixel_wasm out (w - 1) j i c = Some v
                      \<and> get_pixel_wasm src' w j (if i < ps' ! nat j then i else i + 1) c = Some v))"
    using d by blast
qed

theorem remove_seam_shifts_witness:
  "(\<exists>dest. remove_seam \<lparr>raster = map Some [1,2,3, 4,5,6, 7,8,9, 10,11,12], height = 2, width = 2\<rparr>
             (map Some [1, 0]) = Some dest
        \<and> height dest = 2 \<and> width dest = 1 \<and> int (length (raster dest)) = 6
        \<and> (\<exists>v. get_pixel dest 1 0 2 = Some v
              \<and> get_pixel \<lparr>raster = map Some [1,2,3, 4,5,6, 7,8,9, 10,11,12], height = 2, width = 2\<rparr>
                   1 1 2 = Some v))
   \<and> (\<exists>out. seam_carve_copy (map Some [1,2,3,255, 4,5,6,255, 7,8,9,255, 10,11,12,255])
               (map Some [1, 0]) 2 2 = Some out
        \<and> int (length out) = 8
        \<and> (\<exists>v. get_pixel_wasm out 1 1 0 3 = Some v
              \<and> get_pixel_wasm (map Some [1,2,3,255, 4,5,6,255, 7,8,9,255, 10,11,12,255]) 2 1 1 3 = Some v))"
proof -
  let ?src = "\<lparr>raster = map Some [1,2,3, 4,5,6, 7,8,9, 10,11,12], height = 2, width = 2\<rparr>"
  let ?src' = "map Some [1,2,3,255, 4,5,6,255, 7,8,9,255, 10,11,12,255] :: 8 word buffer"
  let ?ps = "[1, 0] :: int list"
  have a: "wf_img ?src" by (simp add: wf_img_def sized_def)
  have b: "wf_rgba ?src' 2 2" by (simp add: wf_rgba_def)
  have r: "ps ! nat j = (if j = 0 then 1 else 0)" if "ps = ?ps" "0 \<le> j" "j < 2" for ps j
  proof -
    have "j = 0 \<or> j = 1" using that by linarith
    then show ?thesis using that(1) by auto
  qed
  have c: "\<forall>j. 0 \<le> j \<and> j < height ?src \<longrightarrow> 0 \<le> ?ps ! nat j \<and> ?ps ! nat j < width ?src"
    using r [OF refl] by simp
  have d: "\<forall>j. 0 \<le> j \<and> j < 2 \<longrightarrow> 0 \<le> ?ps ! nat j \<and> ?ps ! nat j < 2"
    using r [OF refl] by simp
  from remove_seam_shifts [OF a _ _ _ c b _ _ _ d]
  obtain dest out where
    "remove_seam ?src (map Some ?ps) = Some dest" "height dest = 2" "width dest = 1"
    "int (length (raster dest)) = 6"
    "\<And>j i c. 0 \<le> j \<Longrightarrow> j < 2 \<Longrightarrow> 0 \<le> i \<Longrightarrow> i < 1 \<Longrightarrow> 0 \<le> c \<Longrightarrow> c < 3 \<Longrightarrow>
        \<exists>v. get_pixel dest j i c = Some v
            \<and> get_pixel ?src j (if i < ?ps ! nat j then i else i + 1) c = Some v"
    "seam_carve_copy ?src' (map Some ?ps) 2 2 = Some out" "int (length out) = 8"
    "\<And>j i c. 0 \<le> j \<Longrightarrow> j < 2 \<Longrightarrow> 0 \<le> i \<Longrightarrow> i < 1 \<Longrightarrow> 0 \<le> c \<Longrightarrow> c < 4 \<Longrightarrow>
        \<exists>v. get_pixel_wasm out 1 j i c = Some v
            \<and> get_pixel_wasm ?src' 2 j (if i < ?ps ! nat j then i else i + 1) c = Some v"
    by simp blast
  from this(1-4) this(5) [of 1 0 2] this(6,7) this(8) [of 1 0 3] show ?thesis
    by simp
qed

text \<open>
  Claim C4, as amended. \<^verbatim>\<open>remove_seam\<close> does not check the length of the seam path. For
  every raster with \<open>W \<ge> 1\<close> and every seam path whose entries \<^verbatim>\<open>path[0]\<close> to
  \<^verbatim>\<open>path[H - 1]\<close> lie in \<open>[0, W - 1]\<close>, it returns the reduced raster of height \<open>H\<close> and
  width \<open>W - 1\<close> (row \<open>j\<close> without its column \<^verbatim>\<open>path[j]\<close>), whatever the length of the
  path: the same raster as for the first \<open>H\<close> entries alone. A path with more entries
  than the raster has rows is accepted, and no InvalidSeam condition is raised for it.
\<close>

theorem remove_seam_length_unchecked:
  assumes "wf_img src" "1 \<le> width src"
    and "\<forall>j. 0 \<le> j \<and> j < height src \<longrightarrow> (\<exists>p. arr_get pth j = Some p \<and> 0 \<le> p \<and> p < width src)"
  shows "\<exists>dest. remove_seam src pth = Some dest
           \<and> remove_seam src (take (nat (height src)) pth) = Some dest
           \<and> height dest = height src \<and> width dest = width src - 1
           \<and> int (length (raster dest)) = 3 * height src * (width src - 1)
           \<and> (\<forall>j i c p. 0 \<le> j \<and> j < height src \<and> 0 \<le> i \<and> i < width src - 1 \<and> 0 \<le> c \<and> c < 3
                  \<and> arr_get pth j = Some p \<longrightarrow>
                (\<exists>v. get_pixel dest j i c = Some v
                    \<and> get_pixel src j (if i < p then i else i + 1) c = Some v))"
proof -
  have sz: "sized src" and nn: "None \<notin> set (raster src)" using assms(1) by (auto simp: wf_img_def)
  have pth: "\<exists>p. arr_get pth j = Some p \<and> 0 \<le> p \<and> p < width src"
    if "0 \<le> j" "j < height src" for j
    using assms(3) that by blast
  from remove_seam_correct [OF assms(1,2) pth]
  obtain dest where d: "remove_seam src pth = Some dest" "sized dest" "height dest = height src"
      "width dest = width src - 1"
    and px: "\<And>y x c p. 0 \<le> y \<Longrightarrow> y < height src \<Longrightarrow> 0 \<le> x \<Longrightarrow> x < width src - 1 \<Longrightarrow> 0 \<le> c \<Longrightarrow> c < 3
                  \<Longrightarrow> arr_get pth y = Some p \<Longrightarrow>
                 get_pixel dest y x c = get_pixel src y (if x < p then x else x + 1) c"
    by blast
  have len: "int (length (raster dest)) = 3 * height src * (width src - 1)"
    using d(2-4) by (simp add: sized_def)
  have "arr_get (take (nat (height src)) pth) j = arr_get pth j" if "0 \<le> j" "j < height src" for j
    using that by (intro arr_get_take) auto
  then have tk: "remove_seam src (take (nat (height src)) pth) = remove_seam src pth"
    by (rule remove_seam_cong)
  have "\<exists>v. get_pixel dest j i c = Some v \<and> get_pixel src j (if i < p then i else i + 1) c = Some v"
    if r: "0 \<le> j" "j < height src" "0 \<le> i" "i < width src - 1" "0 \<le> c" "c < 3"
      and p: "arr_get pth j = Some p" for j i c p
  proof -
    have "0 \<le> (if i < p then i else i + 1)" "(if i < p then i else i + 1) < width src"
      using r by auto
    from get_pixel_ok [OF sz nn r(1,2) this r(5,6)]
    obtain v where "get_pixel src j (if i < p then i else i + 1) c = Some v" by blast
    with px [OF r p] show ?thesis by simp
  qed
  with d(1,3,4) len tk show ?thesis by auto
qed

theorem remove_seam_length_unchecked_witness:
  "\<exists>dest. remove_seam \<lparr>raster = map Some [1,2,3, 4,5,6, 7,8,9, 10,11,12], height = 2, width = 2\<rparr>
            (map Some [0, 1, 5]) = Some dest
     \<and> remove_seam \<lparr>raster = map Some [1,2,3, 4,5,6, 7,8,9, 10,11,12], height = 2, width = 2\<rparr>
            (map Some [0, 1]) = Some dest
     \<and> height dest = 2 \<and> width dest = 1 \<and> int (length (raster dest)) = 6"
proof -
  let ?src = "\<lparr>raster = map Some [1,2,3, 4,5,6, 7,8,9, 10,11,12], height = 2, width = 2\<rparr>"
  let ?pth = "map Some [0, 1, 5] :: int buffer"
  have a: "wf_img ?src" by (simp add: wf_img_def sized_def)
  have "\<exists>p. arr_get ?pth j = Some p \<and> 0 \<le> p \<and> p < 2" if "0 \<le> j" "j < 2" for j
  proof -
    have "j = 0 \<or> j = 1" using that by linarith
    then show ?thesis by (auto simp: arr_get_def)
  qed
  then have b: "\<forall>j. 0 \<le> j \<and> j < height ?src \<longrightarrow> (\<exists>p. arr_get ?pth j = Some p \<and> 0 \<le> p \<and> p < width ?src)"
    by simp
  from remove_seam_length_unchecked [OF a _ b] obtain dest where
    "remove_seam ?src ?pth = Some dest" "remove_seam ?src (take (nat (height ?src)) ?pth) = Some dest"
    "height dest = height ?src" "width dest = width ?src - 1"
    "int (length (raster dest)) = 3 * height ?src * (width ?src - 1)"
    by auto
  then show ?thesis by (intro exI [of _ dest]) simp
qed

text \<open>
  Claim C4 as it stands (a path whose length differs from the height of the raster is
  rejected without a result) fails: the raster below has height 2, the path \<open>[0, 1, 5]\<close> has
  length 3, and \<^verbatim>\<open>remove_seam\<close> returns the raster without column 0 of row 0 and column 1 of
  row 1.
\<close>

theorem remove_seam_invalid_seam_counterexample:
  "height \<lparr>raster = map Some [1,2,3, 4,5,6, 7,8,9, 10,11,12], height = 2, width = 2\<rparr> = 2
   \<and> length (map Some [0, 1, 5 :: int]) = 3
   \<and> remove_seam \<lparr>raster = map Some [1,2,3, 4,5,6, 7,8,9, 10,11,12], height = 2, width = 2\<rparr>
        (map Some [0, 1, 5])
       = Some \<lparr>raster = map Some [4,5,6, 7,8,9], height = 2, width = 1\<rparr>"
  by code_simp

section \<open>The composed operation\<close>

text \<open>
  Claim C10. In \<^verbatim>\<open>seam_carve\<close>, every pixel that is not on the seam is copied to the
  reduced raster with its four channel values unchanged, alpha included: the pixel at
  column \<open>i\<close> of row \<open>j\<close> goes to column \<open>i\<close> when it is left of the seam and to column
  \<open>i - 1\<close> when it is right of it. The seam \<open>ps\<close> is the one the function computes. The
  raster has one row or at least two columns: on a higher raster of width 1 the table
  loop reads a cell it has not stored to (see \<open>dynamic_seam_width_one\<close> below).
\<close>

theorem seam_carve_keeps_rgba:
  assumes "wf_rgba src h w" "1 \<le> h" "1 \<le> w" "h = 1 \<or> 2 \<le> w"
  shows "\<exists>em best ps out.
           calc_energy_wasm src (malloc (h * w * 4)) h w = Some em
         \<and> seam_carve_best em h w = Some best
         \<and> seam_carve_path best h w = Some (map Some ps)
         \<and> seam_carve src h w = Some out
         \<and> int (length out) = 4 * h * (w - 1)
         \<and> (\<forall>j i c. 0 \<le> j \<and> j < h \<and> 0 \<le> i \<and> i < w \<and> i \<noteq> ps ! nat j \<and> 0 \<le> c \<and> c < 4 \<longrightarrow>
               (\<exists>v. get_pixel_wasm src w j i c = Some v
                   \<and> get_pixel_wasm out (w - 1) j (if i < ps ! nat j then i else i - 1) c = Some v))"
proof -
  have hw: "0 \<le> h" "0 \<le> w" "1 \<le> w" using assms by auto
  have ml: "int (length (malloc (h * w * 4) :: 8 word buffer)) = 4 * h * w"
    using hw by (simp add: malloc_def)
  from calc_energy_wasm_correct [OF assms(1) ml]
  obtain em where em: "calc_energy_wasm src (malloc (h * w * 4)) h w = Some em"
    and epx: "\<And>y x c. 0 \<le> y \<Longrightarrow> y < h \<Longrightarrow> 0 \<le> x \<Longrightarrow> x < w \<Longrightarrow> 0 \<le> c \<Longrightarrow> c < 4 \<Longrightarrow>
               \<exists>s. energy_sum_wasm src h w y x = Some s
                 \<and> get_pixel_wasm em w y x c = Some (if c = 3 then 255 else word_of_int (sqrt_c s div 10))"
    by blast
  have e0: "\<exists>p. get_pixel_wasm em w j i 0 = Some p" if "0 \<le> j" "j < h" "0 \<le> i" "i < w" for j i
    using epx [OF that, of 0] by auto
  from seam_carve_best_correct [OF assms(2) hw(3) assms(4) e0]
  obtain best where best: "seam_carve_best em h w = Some best" "int (length best) = h * w"
    and cells: "\<And>j i. 0 \<le> j \<Longrightarrow> j < h \<Longrightarrow> 0 \<le> i \<Longrightarrow> i < w \<Longrightarrow>
                 arr_get best (j * w + i)
                   = Some (spec_cost (\<lambda>j i. uint (the (get_pixel_wasm em w j i 0))) w (nat j) i)"
    by blast
  have filled: "\<exists>v. arr_get best (j * w + i) = Some v" if "0 \<le> j" "j < h" "0 \<le> i" "i < w" for j i
    using cells [OF that] by simp
  from seam_carve_path_correct [OF assms(2) hw(3) filled]
  obtain ps where ps: "seam_carve_path best h w = Some (map Some ps)" "int (length ps) = h"
    and rng: "\<And>j. 0 \<le> j \<Longrightarrow> j < h \<Longrightarrow> 0 \<le> ps ! nat j \<and> ps ! nat j < w"
    by blast
  have g: "arr_get (map Some ps) j = Some (ps ! nat j)" if "0 \<le> j" "j < h" for j
    using that ps(2) by (intro arr_get_map_Some) auto
  have pth: "\<exists>p. arr_get (map Some ps) j = Some p \<and> 0 \<le> p \<and> p < w" if "0 \<le> j" "j < h" for j
    using g [OF that] rng [OF that] by auto
  from seam_carve_copy_correct [OF assms(1) hw(3) pth]
  obtain out where out: "seam_carve_copy src (map Some ps) h w = Some out"
      "int (length out) = 4 * h * (w - 1)"
    and px: "\<And>y x c p. 0 \<le> y \<Longrightarrow> y < h \<Longrightarrow> 0 \<le> x \<Longrightarrow> x < w - 1 \<Longrightarrow> 0 \<le> c \<Longrightarrow> c < 4
                  \<Longrightarrow> arr_get (map Some ps) y = Some p \<Longrightarrow>
                 get_pixel_wasm out (w - 1) y x c = get_pixel_wasm src w y (if x < p then x else x + 1) c"
    by blast
  have run: "seam_carve src h w = Some out"
    using em best(1) ps(1) out(1) by (simp add: seam_carve_def)
  have "\<exists>v. get_pixel_wasm src w j i c = Some v
          \<and> get_pixel_wasm out (w - 1) j (if i < ps ! nat j then i else i - 1) c = Some v"
    if r: "0 \<le> j" "j < h" "0 \<le> i" "i < w" "i \<noteq> ps ! nat j" "0 \<le> c" "c < 4" for j i c
  proof -
    define x where "x = (if i < ps ! nat j then i else i - 1)"
    have x: "0 \<le> x" "x < w - 1" "(if x < ps ! nat j then x else x + 1) = i"
      using r rng [OF r(1,2)] by (auto simp: x_def)
    from get_pixel_wasm_ok [OF assms(1) r(1-4,6,7)]
    obtain v where v: "get_pixel_wasm src w j i c = Some v" by blast
    have "get_pixel_wasm out (w - 1) j x c = get_pixel_wasm src w j i c"
      using px [OF r(1,2) x(1,2) r(6,7) g [OF r(1,2)]] x(3) by simp
    with v show ?thesis unfolding x_def by simp
  qed
  with em best(1) ps(1) run out(2) show ?thesis by blast
qed

theorem seam_carve_keeps_rgba_witness:
  "\<exists>em best ps out.
     calc_energy_wasm (map Some [0,0,0,255, 0,0,0,9, 100,0,0,255,  0,0,0,255, 0,0,0,255, 0,0,0,7])
       (malloc (2 * 3 * 4)) 2 3 = Some em
   \<and> seam_carve_best em 2 3 = Some best
   \<and> seam_carve_path best 2 3 = Some (map Some ps)
   \<and> seam_carve (map Some [0,0,0,255, 0,0,0,9, 100,0,0,255,  0,0,0,255, 0,0,0,255, 0,0,0,7]) 2 3
       = Some out
   \<and> int (length out) = 4 * 2 * (3 - 1)
   \<and> (\<forall>j i c. 0 \<le> j \<and> j < 2 \<and> 0 \<le> i \<and> i < 3 \<and> i \<noteq> ps ! nat j \<and> 0 \<le> c \<and> c < 4 \<longrightarrow>
         (\<exists>v. get_pixel_wasm (map Some [0,0,0,255, 0,0,0,9, 100,0,0,255,
                                        0,0,0,255, 0,0,0,255, 0,0,0,7]) 3 j i c = Some v
             \<and> get_pixel_wasm out (3 - 1) j (if i < ps ! nat j then i else i - 1) c = Some v))"
proof -
  have a: "wf_rgba (map Some [0,0,0,255, 0,0,0,9, 100,0,0,255,  0,0,0,255, 0,0,0,255, 0,0,0,7]) 2 3"
    by (simp add: wf_rgba_def)
  have b: "1 \<le> (2 :: int)" and c: "1 \<le> (3 :: int)" and d: "(2 :: int) = 1 \<or> 2 \<le> (3 :: int)"
    by simp_all
  show ?thesis by (rule seam_carve_keeps_rgba [OF a b c d])
qed

section \<open>The claims about the seam finder\<close>

text \<open>
  Every table that the dynamic program fills from a byte-valued energy map holds integers
  between 0 and \<open>255 * H\<close>, below the sentinel \<open>10\<^sup>1\<^sup>6\<close> of \<^verbatim>\<open>recover_path\<close> for every
  height an \<^verbatim>\<open>int\<close> can hold.
\<close>

lemma candidates_nonempty: "0 \<le> i \<Longrightarrow> i < w \<Longrightarrow> (i :: int) \<in> {i - 1, i, i + 1} \<inter> {0..w - 1}"
  by auto

lemma spec_cost_bound:
  assumes E: "\<And>j i. 0 \<le> E j i \<and> E j i \<le> 255"
  shows "0 \<le> i \<Longrightarrow> i < w \<Longrightarrow> 0 \<le> spec_cost E w j i \<and> spec_cost E w j i \<le> 255 * (int j + 1)"
proof (induction j arbitrary: i)
  case 0
  then show ?case using E [of 0 i] by simp
next
  case (Suc j)
  let ?S = "spec_cost E w j ` ({i - 1, i, i + 1} \<inter> {0..w - 1})"
  have fin: "finite ?S" by simp
  have ne: "?S \<noteq> {}" using candidates_nonempty [OF Suc.prems] by blast
  have "Min ?S \<in> ?S" using fin ne by (rule Min_in)
  then obtain x where x: "x \<in> {i - 1, i, i + 1} \<inter> {0..w - 1}" "Min ?S = spec_cost E w j x"
    by blast
  then have "0 \<le> x" "x < w" by auto
  from Suc.IH [OF this] x(2) have "0 \<le> Min ?S" "Min ?S \<le> 255 * (int j + 1)" by auto
  then show ?case using E [of "int (Suc j)" i] by simp
qed

lemma dynamic_seam_below_sentinel:
  assumes wf: "wf_img grad" and h: "1 \<le> height grad" "height grad < 2 ^ 31" and w: "2 \<le> width grad"
  shows "\<exists>best. dynamic_seam grad = Some best
           \<and> (\<forall>j i. 0 \<le> j \<and> j < height grad \<and> 0 \<le> i \<and> i < width grad \<longrightarrow>
                 (\<exists>v. arr_get best (j * width grad + i) = Some v \<and> 0 \<le> v \<and> v < 10000000000000000))"
proof -
  define E where "E = (\<lambda>j i. uint (the (get_pixel grad j i 0)))"
  have E: "0 \<le> E j i \<and> E j i \<le> 255" for j i
    using uint_bounded [of "the (get_pixel grad j i 0)"] by (simp add: E_def)
  from dynamic_seam_correct [OF wf h(1)] w
  obtain best where best: "dynamic_seam grad = Some best"
    and cells: "\<And>j i. 0 \<le> j \<Longrightarrow> j < height grad \<Longrightarrow> 0 \<le> i \<Longrightarrow> i < width grad \<Longrightarrow>
                arr_get best (j * width grad + i) = Some (spec_cost E (width grad) (nat j) i)"
    unfolding E_def by auto
  have "\<exists>v. arr_get best (j * width grad + i) = Some v \<and> 0 \<le> v \<and> v < 10000000000000000"
    if r: "0 \<le> j" "j < height grad" "0 \<le> i" "i < width grad" for j i
  proof -
    from spec_cost_bound [of E i "width grad" "nat j", OF E r(3,4)]
    have b: "0 \<le> spec_cost E (width grad) (nat j) i"
      "spec_cost E (width grad) (nat j) i \<le> 255 * (int (nat j) + 1)" by auto
    have "255 * (int (nat j) + 1) \<le> 255 * 2 ^ 31" using r(1,2) h(2) by simp
    then have "spec_cost E (width grad) (nat j) i < 10000000000000000" using b(2) by simp
    with b(1) cells [OF r] show ?thesis by simp
  qed
  with best show ?thesis by blast
qed

text \<open>
  Claim C5. The tie-breaking of the seam finder follows the documented order. In the
  bottom row the chosen column has the least cost and no column left of it has the same
  cost. In every row above, with \<open>c\<close> the column chosen in the row below: \<open>c\<close> is chosen
  whenever it is a candidate of least cost, and \<open>c - 1\<close> is chosen whenever it is a
  candidate of least cost and \<open>c\<close> is not, so before \<open>c + 1\<close>. Stated for
  \<^verbatim>\<open>recover_path\<close>, on tables whose entries are below its sentinel \<open>10\<^sup>1\<^sup>6\<close> (as all
  tables of \<^verbatim>\<open>dynamic_seam\<close> are), and for the seam of \<^verbatim>\<open>seam_carve\<close>.
\<close>

theorem seam_tie_break_order:
  assumes "1 \<le> h" "1 \<le> w"
    and "\<forall>j i. 0 \<le> j \<and> j < h \<and> 0 \<le> i \<and> i < w \<longrightarrow>
           (\<exists>v. arr_get best (j * w + i) = Some v \<and> v < 10000000000000000)"
    and "1 \<le> h'" "1 \<le> w'"
    and "\<forall>j i. 0 \<le> j \<and> j < h' \<and> 0 \<le> i \<and> i < w' \<longrightarrow> (\<exists>v. arr_get best' (j * w' + i) = Some v)"
  shows "(\<exists>ps. recover_path best h w = Some (map Some ps) \<and> int (length ps) = h
            \<and> lowest_min (cost_at best w (h - 1)) w (ps ! nat (h - 1))
            \<and> (\<forall>j. 0 \<le> j \<and> j < h - 1 \<longrightarrow>
                  tie_break (cost_at best w j) w (ps ! nat (j + 1)) (ps ! nat j)))
       \<and> (\<exists>ps. seam_carve_path best' h' w' = Some (map Some ps) \<and> int (length ps) = h'
            \<and> lowest_min (cost_at best' w' (h' - 1)) w' (ps ! nat (h' - 1))
            \<and> (\<forall>j. 0 \<le> j \<and> j < h' - 1 \<longrightarrow>
                  tie_break (cost_at best' w' j) w' (ps ! nat (j + 1)) (ps ! nat j)))"
proof
  have cells: "\<exists>v. arr_get best (j * w + i) = Some v \<and> v < 10000000000000000"
    if "0 \<le> j" "j < h" "0 \<le> i" "i < w" for j i
    using assms(3) that by blast
  from recover_path_correct [OF assms(1,2) cells]
  obtain ps where ps: "recover_path best h w = Some (map Some ps)" "int (length ps) = h"
      "lowest_min (cost_at best w (h - 1)) w (ps ! nat (h - 1))"
    and rng: "\<And>j. 0 \<le> j \<Longrightarrow> j < h \<Longrightarrow> 0 \<le> ps ! nat j \<and> ps ! nat j < w"
    and pick: "\<And>j. 0 \<le> j \<Longrightarrow> j < h - 1 \<Longrightarrow> ps ! nat j = rp_pick (cost_at best w j) w (ps ! nat (j + 1))"
    by blast
  have "tie_break (cost_at best w j) w (ps ! nat (j + 1)) (ps ! nat j)" if "0 \<le> j" "j < h - 1" for j
  proof -
    have "0 \<le> ps ! nat (j + 1)" "ps ! nat (j + 1) < w" using rng [of "j + 1"] that by auto
    then show ?thesis unfolding pick [OF that] by (rule rp_pick_tie_break)
  qed
  with ps show "\<exists>ps. recover_path best h w = Some (map Some ps) \<and> int (length ps) = h
            \<and> lowest_min (cost_at best w (h - 1)) w (ps ! nat (h - 1))
            \<and> (\<forall>j. 0 \<le> j \<and> j < h - 1 \<longrightarrow>
                  tie_break (cost_at best w j) w (ps ! nat (j + 1)) (ps ! nat j))"
    by blast
next
  have cells: "\<exists>v. arr_get best' (j * w' + i) = Some v"
    if "0 \<le> j" "j < h'" "0 \<le> i" "i < w'" for j i
    using assms(6) that by blast
  from seam_carve_path_correct [OF assms(4,5) cells]
  show "\<exists>ps. seam_carve_path best' h' w' = Some (map Some ps) \<and> int (length ps) = h'
            \<and> lowest_min (cost_at best' w' (h' - 1)) w' (ps ! nat (h' - 1))
            \<and> (\<forall>j. 0 \<le> j \<and> j < h' - 1 \<longrightarrow>
                  tie_break (cost_at best' w' j) w' (ps ! nat (j + 1)) (ps ! nat j))"
    by blast
qed

theorem seam_tie_break_order_witness:
  "(\<exists>ps. recover_path (map Some [3, 3, 3, 1, 1, 1]) 2 3 = Some (map Some ps) \<and> int (length ps) = 2
        \<and> lowest_min (cost_at (map Some [3, 3, 3, 1, 1, 1]) 3 (2 - 1)) 3 (ps ! nat (2 - 1))
        \<and> (\<forall>j. 0 \<le> j \<and> j < 2 - 1 \<longrightarrow>
              tie_break (cost_at (map Some [3, 3, 3, 1, 1, 1]) 3 j) 3 (ps ! nat (j + 1)) (ps ! nat j)))
   \<and> (\<exists>ps. seam_carve_path (map Some [3, 3, 3, 1, 1, 1]) 2 3 = Some (map Some ps) \<and> int (length ps) = 2
        \<and> lowest_min (cost_at (map Some [3, 3, 3, 1, 1, 1]) 3 (2 - 1)) 3 (ps ! nat (2 - 1))
        \<and> (\<forall>j. 0 \<le> j \<and> j < 2 - 1 \<longrightarrow>
              tie_break (cost_at (map Some [3, 3, 3, 1, 1, 1]) 3 j) 3 (ps ! nat (j + 1)) (ps ! nat j)))"
proof -
  let ?best = "map Some [3, 3, 3, 1, 1, 1] :: int buffer"
  have idx: "j * 3 + i \<in> {0, 1, 2, 3, 4, 5}" if "0 \<le> j" "j < 2" "0 \<le> i" "i < 3" for j i :: int
  proof -
    have "j = 0 \<or> j = 1" "i = 0 \<or> i = 1 \<or> i = 2" using that by linarith+
    then show ?thesis by auto
  qed
  have c: "\<exists>v. arr_get ?best (j * 3 + i) = Some v \<and> v < 10000000000000000"
    if "0 \<le> j" "j < 2" "0 \<le> i" "i < 3" for j i
    using idx [OF that] by (auto simp: arr_get_def)
  then have a: "\<forall>j i. 0 \<le> j \<and> j < 2 \<and> 0 \<le> i \<and> i < 3 \<longrightarrow>
           (\<exists>v. arr_get ?best (j * 3 + i) = Some v \<and> v < 10000000000000000)"
    by blast
  then have b: "\<forall>j i. 0 \<le> j \<and> j < 2 \<and> 0 \<le> i \<and> i < 3 \<longrightarrow> (\<exists>v. arr_get ?best (j * 3 + i) = Some v)"
    by blast
  have h: "1 \<le> (2 :: int)" and w: "1 \<le> (3 :: int)" by simp_all
  show ?thesis by (rule seam_tie_break_order [OF h w a h w b])
qed

section \<open>Concrete runs\<close>

text \<open>
  Claim C8. On the \<open>3 \<times> 3\<close> raster whose pixels are all \<open>(0, 0, 0)\<close>, the energy map is
  all zero, the cost table is all zero, \<^verbatim>\<open>recover_path\<close> returns \<open>[0, 0, 0]\<close> and
  \<^verbatim>\<open>remove_seam\<close> returns the \<open>3 \<times> 2\<close> raster of columns 1 and 2.
\<close>

theorem black_3x3_scenario:
  "calc_energy \<lparr>raster = map Some (replicate 27 0), height = 3, width = 3\<rparr>
     = Some \<lparr>raster = map Some (replicate 27 0), height = 3, width = 3\<rparr>
   \<and> dynamic_seam \<lparr>raster = map Some (replicate 27 0), height = 3, width = 3\<rparr>
     = Some (map Some (replicate 9 0))
   \<and> recover_path (map Some (replicate 9 0)) 3 3 = Some (map Some [0, 0, 0])
   \<and> remove_seam \<lparr>raster = map Some (replicate 27 0), height = 3, width = 3\<rparr> (map Some [0, 0, 0])
     = Some \<lparr>raster = map Some (replicate 18 0), height = 3, width = 2\<rparr>"
  by code_simp

text \<open>
  Claim C1 (in every row above the bottom, the seam takes a candidate column of least
  cost) fails for \<^verbatim>\<open>recover_path\<close>. The table below is the one \<^verbatim>\<open>dynamic_seam\<close>
  fills for the energy rows \<open>(10, 10, 0)\<close> and \<open>(0, 0, 0)\<close>. The bottom row gives column 1.
  In row 0 the candidates are the columns 0, 1 and 2 with the costs 10, 10 and 0;
  \<^verbatim>\<open>recover_path\<close> stores column 1, of cost 10, because the cost 0 of column 2 makes the
  test \<^verbatim>\<open>e3_sum == 0\<close> of line 253 take the branch of the border cases. The seam of
  \<^verbatim>\<open>seam_carve\<close> on the same table takes column 2.
\<close>

theorem recover_path_misses_minimum:
  "dynamic_seam \<lparr>raster = map Some [10,10,10, 10,10,10, 0,0,0, 0,0,0, 0,0,0, 0,0,0],
                 height = 2, width = 3\<rparr>
     = Some (map Some [10, 10, 0, 10, 0, 0])
   \<and> recover_path (map Some [10, 10, 0, 10, 0, 0]) 2 3 = Some (map Some [1, 1])
   \<and> 2 \<in> candidates 3 1
   \<and> cost_at (map Some [10, 10, 0, 10, 0, 0]) 3 0 2 < cost_at (map Some [10, 10, 0, 10, 0, 0]) 3 0 1
   \<and> rp_pick (cost_at (map Some [10, 10, 0, 10, 0, 0]) 3 0) 3 1 = 1
   \<and> seam_carve_path (map Some [10, 10, 0, 10, 0, 0]) 2 3 = Some (map Some [2, 1])"
  by code_simp

text \<open>
  Claim C2 (the cost table is the energy plus the least cost over the predecessor set
  \<open>{i - 1, i, i + 1} \<inter> [0, W - 1]\<close> of the row above) fails for a raster of width 1 and
  height above 1: no cost is computed there. In the column \<open>i = 0\<close> the
  branch \<^verbatim>\<open>i == 0\<close> is taken before \<^verbatim>\<open>i == width - 1\<close> is looked at, and reads
  \<^verbatim>\<open>best_arr[(j - 1) * width + (i + 1)]\<close>, which for width 1 is the cell \<open>(j, 0)\<close> being
  computed: a cell of the \<^verbatim>\<open>malloc\<close> block that nothing has been stored to. The raster
  below is \<open>3 \<times> 1\<close> with the pixels \<open>(0,0,0)\<close>, \<open>(0,0,0)\<close>, \<open>(100,0,0)\<close>; both source files
  do the same.
\<close>

theorem dynamic_seam_width_one:
  "calc_energy \<lparr>raster = map Some [0,0,0, 0,0,0, 100,0,0], height = 3, width = 1\<rparr>
     = Some \<lparr>raster = map Some [10,10,10, 10,10,10, 0,0,0], height = 3, width = 1\<rparr>
   \<and> dynamic_seam \<lparr>raster = map Some [10,10,10, 10,10,10, 0,0,0], height = 3, width = 1\<rparr> = None
   \<and> dynamic_seam_cell \<lparr>raster = map Some [10,10,10, 10,10,10, 0,0,0], height = 3, width = 1\<rparr>
        1 0 [Some 10, None, None] = None
   \<and> arr_get [Some (10 :: int), None, None] ((1 - 1) * 1 + (0 + 1)) = None
   \<and> seam_carve_best (map Some [10,10,10,255, 10,10,10,255, 0,0,0,255]) 3 1 = None
   \<and> seam_carve (map Some [0,0,0,255, 0,0,0,255, 100,0,0,255]) 3 1 = None"
  by code_simp

text \<open>
  Claim C6 (\<^verbatim>\<open>seam_carve\<close> gives the seam and the reduced RGB values of the four stages
  composed) fails on the \<open>2 \<times> 3\<close> raster whose pixel \<open>(0, 2)\<close> is \<open>(100, 0, 0)\<close> and whose
  other pixels are \<open>(0, 0, 0)\<close>. Both files compute the same energies and the same cost
  table; \<^verbatim>\<open>recover_path\<close> then returns the seam \<open>[1, 1]\<close> and \<^verbatim>\<open>seam_carve\<close> uses
  \<open>[2, 1]\<close>, so that the stages keep the pixel \<open>(100, 0, 0)\<close> and \<^verbatim>\<open>seam_carve\<close> drops
  it.
\<close>

theorem seam_carve_differs_from_stages:
  "calc_energy \<lparr>raster = map Some [0,0,0, 0,0,0, 100,0,0, 0,0,0, 0,0,0, 0,0,0], height = 2, width = 3\<rparr>
     = Some \<lparr>raster = map Some [10,10,10, 10,10,10, 0,0,0, 0,0,0, 0,0,0, 0,0,0], height = 2, width = 3\<rparr>
   \<and> dynamic_seam \<lparr>raster = map Some [10,10,10, 10,10,10, 0,0,0, 0,0,0, 0,0,0, 0,0,0],
                   height = 2, width = 3\<rparr>
     = Some (map Some [10, 10, 0, 10, 0, 0])
   \<and> recover_path (map Some [10, 10, 0, 10, 0, 0]) 2 3 = Some (map Some [1, 1])
   \<and> remove_seam \<lparr>raster = map Some [0,0,0, 0,0,0, 100,0,0, 0,0,0, 0,0,0, 0,0,0], height = 2, width = 3\<rparr>
        (map Some [1, 1])
     = Some \<lparr>raster = map Some [0,0,0, 100,0,0, 0,0,0, 0,0,0], height = 2, width = 2\<rparr>
   \<and> calc_energy_wasm (map Some [0,0,0,255, 0,0,0,255, 100,0,0,255, 0,0,0,255, 0,0,0,255, 0,0,0,255])
        (malloc (2 * 3 * 4)) 2 3
     = Some (map Some [10,10,10,255, 10,10,10,255, 0,0,0,255, 0,0,0,255, 0,0,0,255, 0,0,0,255])
   \<and> seam_carve_best
        (map Some [10,10,10,255, 10,10,10,255, 0,0,0,255, 0,0,0,255, 0,0,0,255, 0,0,0,255]) 2 3
     = Some (map Some [10, 10, 0, 10, 0, 0])
   \<and> seam_carve_path (map Some [10, 10, 0, 10, 0, 0]) 2 3 = Some (map Some [2, 1])
   \<and> seam_carve (map Some [0,0,0,255, 0,0,0,255, 100,0,0,255, 0,0,0,255, 0,0,0,255, 0,0,0,255]) 2 3
     = Some (map Some [0,0,0,255, 0,0,0,255, 0,0,0,255, 0,0,0,255])"
  by code_simp

end
